theory Spec2Isabelle
  imports Main "HOL-Library.Monad_Syntax" "HOL-Library.Log_Nat"
begin

section \<open>Runes, tokens and the diagnostic sink\<close>

text \<open>
  Go's \<^verbatim>\<open>rune\<close> is an alias of \<^verbatim>\<open>int32\<close>. The scanner only compares runes with
  character literals and with each other, so a rune is modelled by the integer it holds.
  The source of a scanner is the rune slice \<^verbatim>\<open>[]rune(source)\<close>; a Go string built from
  such a slice (a lexeme, a string literal's value) is modelled by the rune list itself.
\<close>

type_synonym rune = int

definition rune_of :: "char \<Rightarrow> rune" where
  "rune_of c = of_char c"

definition runes :: "char list \<Rightarrow> rune list" where
  "runes cs = map rune_of cs"

text \<open>
  Modelled from the spec: the closed enumeration \<^verbatim>\<open>TokenType\<close>. Its declaration is not
  among the sources; the constants are the ones \<^verbatim>\<open>scanner.go\<close> names.
\<close>

datatype token_type =
    LEFT_PAREN | RIGHT_PAREN | LEFT_BRACE | RIGHT_BRACE
  | COMMA | DOT | MINUS | PLUS | SEMICOLON | SLASH | STAR
  | BANG | BANG_EQUAL | EQUAL | EQUAL_EQUAL
  | GREATER | GREATER_EQUAL | LESS | LESS_EQUAL
  | IDENTIFIER | STRING | NUMBER
  | AND | CLASS | ELSE | FALSE | FUN | FOR | IF | NIL | OR
  | PRINT | RETURN | SUPER | THIS | TRUE | VAR | WHILE
  | EOF

text \<open>
  A finite \<^verbatim>\<open>float64\<close> is modelled by the rational number it denotes. The field
  \<^verbatim>\<open>Literal any\<close> of a token holds \<^verbatim>\<open>nil\<close>, a \<^verbatim>\<open>float64\<close> or a \<^verbatim>\<open>string\<close>.
\<close>

type_synonym float64 = rat

datatype literal = LitNil | LitFloat float64 | LitString "rune list"

record token =
  TokenType :: token_type
  Lexeme :: "rune list"
  Literal :: literal
  Line :: int

text \<open>
  Modelled from the spec: the error values handed to \<^verbatim>\<open>reportError\<close>. Their declarations
  are not among the sources; the names are the ones \<^verbatim>\<open>scanner.go\<close> uses.
\<close>

datatype lex_error =
    ErrUnexpectedCharacter
  | ErrUnterminatedString
  | ErrUnterminatedBlockComment
  | ErrInvalidNumberLiteral

text \<open>
  \<^verbatim>\<open>Lox\<close> (main.go) is the diagnostic sink. \<^verbatim>\<open>report\<close> writes one line to standard
  error and sets \<^verbatim>\<open>hadError\<close>; the lines written are kept, in order, as triples of the
  line number, the location text and the error.
\<close>

record lox =
  hadError :: bool
  reports :: "(int \<times> char list \<times> lex_error) list"

definition report :: "lox \<Rightarrow> int \<Rightarrow> char list \<Rightarrow> lex_error \<Rightarrow> lox" where
  "report l line' wh err = l\<lparr>reports := reports l @ [(line', wh, err)], hadError := True\<rparr>"

definition reportError :: "lox \<Rightarrow> int \<Rightarrow> lex_error \<Rightarrow> lox" where
  "reportError l line' err = report l line' [] err"

section \<open>The scanner\<close>

text \<open>
  The indices \<^verbatim>\<open>start\<close> and \<^verbatim>\<open>current\<close> are Go \<^verbatim>\<open>int\<close>s that begin at 0 and are only
  ever incremented or copied, so they are natural numbers here. The scanner holds a
  pointer to the sink and is its only user during a scan: the sink's state is a field.
  A run-time panic of Go (an index or a slice bound out of range) is the value \<open>None\<close>.
\<close>

record scanner =
  source :: "rune list"
  tokens :: "token list"
  start :: nat
  current :: nat
  line :: int
  lox :: lox

definition NewScanner :: "rune list \<Rightarrow> lox \<Rightarrow> scanner" where
  "NewScanner src l =
     \<lparr>source = src, tokens = [], start = 0, current = 0, line = 1, lox = l\<rparr>"

text \<open>
  The slice expression \<^verbatim>\<open>xs[lo:hi]\<close> on Go \<^verbatim>\<open>int\<close>s. Go checks the upper bound against
  the capacity; the model checks it against the length, which is never larger.
\<close>

definition slice :: "'a list \<Rightarrow> int \<Rightarrow> int \<Rightarrow> 'a list option" where
  "slice xs lo hi =
     (if 0 \<le> lo \<and> lo \<le> hi \<and> hi \<le> int (length xs)
      then Some (take (nat (hi - lo)) (drop (nat lo) xs)) else None)"

definition isAtEnd :: "scanner \<Rightarrow> bool" where
  "isAtEnd s = (current s \<ge> length (source s))"

definition advance :: "scanner \<Rightarrow> (rune \<times> scanner) option" where
  "advance s =
     (if current s < length (source s)
      then Some (source s ! current s, s\<lparr>current := current s + 1\<rparr>)
      else None)"

definition peek :: "scanner \<Rightarrow> rune" where
  "peek s = (if isAtEnd s then 0 else source s ! current s)"

definition peekNext :: "scanner \<Rightarrow> rune" where
  "peekNext s =
     (if current s + 1 \<ge> length (source s) then 0 else source s ! (current s + 1))"

definition match :: "scanner \<Rightarrow> rune \<Rightarrow> bool \<times> scanner" where
  "match s expected =
     (if isAtEnd s then (False, s)
      else if source s ! current s \<noteq> expected then (False, s)
      else (True, s\<lparr>current := current s + 1\<rparr>))"

definition isDigit :: "rune \<Rightarrow> bool" where
  "isDigit c = (c \<ge> rune_of CHR ''0'' \<and> c \<le> rune_of CHR ''9'')"

definition isAlpha :: "rune \<Rightarrow> bool" where
  "isAlpha c =
     ((c \<ge> rune_of CHR ''a'' \<and> c \<le> rune_of CHR ''z'') \<or>
      (c \<ge> rune_of CHR ''A'' \<and> c \<le> rune_of CHR ''Z'') \<or>
      c = rune_of CHR ''_'')"

definition isAlphaNumeric :: "rune \<Rightarrow> bool" where
  "isAlphaNumeric c = (isAlpha c \<or> isDigit c)"

definition addTokenWithLiteral :: "scanner \<Rightarrow> token_type \<Rightarrow> literal \<Rightarrow> scanner option" where
  "addTokenWithLiteral s tokenType lit =
     (case slice (source s) (int (start s)) (int (current s)) of
        None \<Rightarrow> None
      | Some text \<Rightarrow>
          Some (s\<lparr>tokens := tokens s @
            [\<lparr>TokenType = tokenType, Lexeme = text, Literal = lit, Line = line s\<rparr>]\<rparr>))"

definition addToken :: "scanner \<Rightarrow> token_type \<Rightarrow> scanner option" where
  "addToken s tokenType = addTokenWithLiteral s tokenType LitNil"

definition keywords' :: "rune list \<Rightarrow> token_type option" where
  "keywords' = map_of
     [(runes ''and'', AND), (runes ''class'', CLASS), (runes ''else'', ELSE),
      (runes ''false'', FALSE), (runes ''for'', FOR), (runes ''fun'', FUN),
      (runes ''if'', IF), (runes ''nil'', NIL), (runes ''or'', OR),
      (runes ''print'', PRINT), (runes ''return'', RETURN), (runes ''super'', SUPER),
      (runes ''this'', THIS), (runes ''true'', TRUE), (runes ''var'', VAR),
      (runes ''while'', WHILE)]"

subsection \<open>Identifiers\<close>

text \<open>The loop \<^verbatim>\<open>for s.isAlphaNumeric(s.peek()) { s.advance() }\<close>.\<close>

function identifier_loop :: "scanner \<Rightarrow> scanner option" where
  "identifier_loop s =
     (if isAlphaNumeric (peek s)
      then (case advance s of None \<Rightarrow> None | Some (c, s') \<Rightarrow> identifier_loop s')
      else Some s)"
  by pat_completeness auto
termination
  by (relation "measure (\<lambda>s. length (source s) - current s)")
     (auto simp: advance_def split: if_splits)

definition identifier' :: "scanner \<Rightarrow> scanner option" where
  "identifier' s0 = do {
     s \<leftarrow> identifier_loop s0;
     text \<leftarrow> slice (source s) (int (start s)) (int (current s));
     (case keywords' text of
        Some tokenType \<Rightarrow> addToken s tokenType
      | None \<Rightarrow> addToken s IDENTIFIER)
   }"

subsection \<open>Number literals\<close>

text \<open>
  \<^verbatim>\<open>strconv.ParseFloat(text, 64)\<close> belongs to Go's standard library, not to this
  repository. It is modelled from its documentation for the texts made of decimal digits
  and at most one dot (Go's decimal form without sign and exponent): the result is the
  \<^verbatim>\<open>float64\<close> nearest to the decimal value, ties going to the even mantissa, and when
  that rounding reaches \<open>2 ^ 1024\<close> the call returns \<^verbatim>\<open>+Inf\<close> together with the error
  \<^verbatim>\<open>ErrRange\<close>. Every other text is outside the model and is answered by
  \<^verbatim>\<open>ErrSyntax\<close>; the scanner never passes such a text (lemma \<open>ParseFloat_number_text\<close> below).
\<close>

datatype num_error = ErrSyntax | ErrRange

definition digit_value :: "rune \<Rightarrow> int" where
  "digit_value c = c - rune_of CHR ''0''"

definition decimal_value :: "rune list \<Rightarrow> rune list \<Rightarrow> rat" where
  "decimal_value ip fp =
     of_int (foldl (\<lambda>a c. 10 * a + digit_value c) 0 (ip @ fp)) / 10 ^ length fp"

definition round_half_even :: "rat \<Rightarrow> int" where
  "round_half_even q =
     (let f = \<lfloor>q\<rfloor>; r = q - of_int f
      in if r < 1 / 2 then f else if r > 1 / 2 then f + 1
         else if even f then f else f + 1)"

text \<open>The binary exponent \<open>\<lfloor>log\<^sub>2 q\<rfloor>\<close> of a positive rational.\<close>

definition binary_exponent :: "rat \<Rightarrow> int" where
  "binary_exponent q =
     (if 1 \<le> q then bitlen \<lfloor>q\<rfloor> - 1 else - bitlen (\<lceil>1 / q\<rceil> - 1))"

text \<open>
  Rounding to 53 bits of precision, with the exponent bounded below by that of the
  subnormal numbers; the result is not bounded above.
\<close>

definition float64_round :: "rat \<Rightarrow> rat" where
  "float64_round q =
     (if q = 0 then 0
      else let e = max (binary_exponent q) (- 1022); ulp = 2 powi (e - 52)
           in of_int (round_half_even (q / ulp)) * ulp)"

definition ParseFloat :: "rune list \<Rightarrow> num_error + float64" where
  "ParseFloat text =
     (let ip = takeWhile isDigit text; rest = dropWhile isDigit text;
          fp = (if rest = [] then [] else tl rest)
      in if (rest = [] \<or> (hd rest = rune_of CHR ''.'' \<and> list_all isDigit (tl rest)))
            \<and> ip @ fp \<noteq> []
         then (let f = float64_round (decimal_value ip fp)
               in if f \<ge> 2 ^ 1024 then Inl ErrRange else Inr f)
         else Inl ErrSyntax)"

text \<open>The loop \<^verbatim>\<open>for s.isDigit(s.peek()) { s.advance() }\<close>, which \<^verbatim>\<open>number\<close> runs twice.\<close>

function number_loop :: "scanner \<Rightarrow> scanner option" where
  "number_loop s =
     (if isDigit (peek s)
      then (case advance s of None \<Rightarrow> None | Some (c, s') \<Rightarrow> number_loop s')
      else Some s)"
  by pat_completeness auto
termination
  by (relation "measure (\<lambda>s. length (source s) - current s)")
     (auto simp: advance_def split: if_splits)

definition number :: "scanner \<Rightarrow> scanner option" where
  "number s0 = do {
     s1 \<leftarrow> number_loop s0;
     s2 \<leftarrow> (if peek s1 = rune_of CHR ''.'' \<and> isDigit (peekNext s1)
            then do { (c, s') \<leftarrow> advance s1; number_loop s' }
            else Some s1);
     text \<leftarrow> slice (source s2) (int (start s2)) (int (current s2));
     (case ParseFloat text of
        Inl err \<Rightarrow> Some (s2\<lparr>lox := reportError (lox s2) (line s2) ErrInvalidNumberLiteral\<rparr>)
      | Inr v \<Rightarrow> addTokenWithLiteral s2 NUMBER (LitFloat v))
   }"

subsection \<open>String literals\<close>

text \<open>The loop \<^verbatim>\<open>for s.peek() != '"' && !s.isAtEnd() { ... }\<close> of \<^verbatim>\<open>string\<close>.\<close>

function string_loop :: "scanner \<Rightarrow> scanner option" where
  "string_loop s =
     (if peek s \<noteq> rune_of (CHR 0x22) \<and> \<not> isAtEnd s
      then (case advance (if peek s = rune_of CHR ''\<newline>'' then s\<lparr>line := line s + 1\<rparr> else s) of
              None \<Rightarrow> None
            | Some (c, s') \<Rightarrow> string_loop s')
      else Some s)"
  by pat_completeness auto
termination
  by (relation "measure (\<lambda>s. length (source s) - current s)")
     (auto simp: advance_def isAtEnd_def split: if_splits)

definition string :: "scanner \<Rightarrow> scanner option" where
  "string s0 = do {
     s \<leftarrow> string_loop s0;
     if isAtEnd s
     then Some (s\<lparr>lox := reportError (lox s) (line s) ErrUnterminatedString\<rparr>)
     else do {
       (c, s') \<leftarrow> advance s;
       v \<leftarrow> slice (source s') (int (start s') + 1) (int (current s') - 1);
       addTokenWithLiteral s' STRING (LitString v)
     }
   }"

subsection \<open>Block comments\<close>

function blockComment :: "scanner \<Rightarrow> scanner option" where
  "blockComment s =
     (if \<not> isAtEnd s
      then (if peek s = rune_of CHR ''*'' \<and> peekNext s = rune_of CHR ''/''
            then (case advance s of
                    None \<Rightarrow> None
                  | Some (c, s1) \<Rightarrow>
                      (case advance s1 of None \<Rightarrow> None | Some (c', s2) \<Rightarrow> Some s2))
            else (case advance (if peek s = rune_of CHR ''\<newline>''
                                then s\<lparr>line := line s + 1\<rparr> else s) of
                    None \<Rightarrow> None
                  | Some (c, s') \<Rightarrow> blockComment s'))
      else Some (s\<lparr>lox := reportError (lox s) (line s) ErrUnterminatedBlockComment\<rparr>))"
  by pat_completeness auto
termination
  by (relation "measure (\<lambda>s. length (source s) - current s)")
     (auto simp: advance_def isAtEnd_def split: if_splits)

subsection \<open>The dispatch on one character\<close>

text \<open>The loop \<^verbatim>\<open>for s.peek() != '\n' && !s.isAtEnd() { s.advance() }\<close> of a line comment.\<close>

function lineComment_loop :: "scanner \<Rightarrow> scanner option" where
  "lineComment_loop s =
     (if peek s \<noteq> rune_of CHR ''\<newline>'' \<and> \<not> isAtEnd s
      then (case advance s of None \<Rightarrow> None | Some (c, s') \<Rightarrow> lineComment_loop s')
      else Some s)"
  by pat_completeness auto
termination
  by (relation "measure (\<lambda>s. length (source s) - current s)")
     (auto simp: advance_def isAtEnd_def split: if_splits)

text \<open>
  \<^verbatim>\<open>scanToken\<close>: the \<^verbatim>\<open>switch\<close> on the rune that \<^verbatim>\<open>advance\<close> returns, as a chain of
  conditionals in the order of the cases; the last three branches are the default case.
\<close>

definition scanToken :: "scanner \<Rightarrow> scanner option" where
  "scanToken s0 = do {
     (c, s) \<leftarrow> advance s0;
     if c = rune_of CHR ''('' then addToken s LEFT_PAREN
     else if c = rune_of CHR '')'' then addToken s RIGHT_PAREN
     else if c = rune_of CHR ''{'' then addToken s LEFT_BRACE
     else if c = rune_of CHR ''}'' then addToken s RIGHT_BRACE
     else if c = rune_of CHR '','' then addToken s COMMA
     else if c = rune_of CHR ''.'' then addToken s DOT
     else if c = rune_of CHR ''-'' then addToken s MINUS
     else if c = rune_of CHR ''+'' then addToken s PLUS
     else if c = rune_of CHR '';'' then addToken s SEMICOLON
     else if c = rune_of CHR ''*'' then addToken s STAR
     else if c = rune_of CHR ''!'' then
       (case match s (rune_of CHR ''='') of
          (True, s') \<Rightarrow> addToken s' BANG_EQUAL | (False, s') \<Rightarrow> addToken s' BANG)
     else if c = rune_of CHR ''='' then
       (case match s (rune_of CHR ''='') of
          (True, s') \<Rightarrow> addToken s' EQUAL_EQUAL | (False, s') \<Rightarrow> addToken s' EQUAL)
     else if c = rune_of CHR ''<'' then
       (case match s (rune_of CHR ''='') of
          (True, s') \<Rightarrow> addToken s' LESS_EQUAL | (False, s') \<Rightarrow> addToken s' LESS)
     else if c = rune_of CHR ''>'' then
       (case match s (rune_of CHR ''='') of
          (True, s') \<Rightarrow> addToken s' GREATER_EQUAL | (False, s') \<Rightarrow> addToken s' GREATER)
     else if c = rune_of CHR ''/'' then
       (case match s (rune_of CHR ''/'') of
          (True, s1) \<Rightarrow> lineComment_loop s1
        | (False, s1) \<Rightarrow>
            (case match s1 (rune_of CHR ''*'') of
               (True, s2) \<Rightarrow> blockComment s2
             | (False, s2) \<Rightarrow> addToken s2 SLASH))
     else if c = rune_of CHR '' '' \<or> c = rune_of (CHR 0x0D) \<or> c = rune_of (CHR 0x09)
       then Some s
     else if c = rune_of CHR ''\<newline>'' then Some (s\<lparr>line := line s + 1\<rparr>)
     else if c = rune_of (CHR 0x22) then string s
     else if isDigit c then number s
     else if isAlpha c then identifier' s
     else Some (s\<lparr>lox := reportError (lox s) (line s) ErrUnexpectedCharacter\<rparr>)
   }"

section \<open>What each routine computes\<close>

text \<open>
  The routines are characterised on the unconsumed input \<open>rest s\<close>, the part of the
  source from \<open>current s\<close> on. The recursive equations of the loops are taken out of
  the simplifier's rules and unfolded one step at a time.
\<close>

declare identifier_loop.simps [simp del] number_loop.simps [simp del]
  string_loop.simps [simp del] blockComment.simps [simp del] lineComment_loop.simps [simp del]

text \<open>The unconsumed input, and the number of newline runes in a text.\<close>

definition rest :: "scanner \<Rightarrow> rune list" where
  "rest s = drop (current s) (source s)"

definition newlines :: "rune list \<Rightarrow> int" where
  "newlines xs = int (length (filter (\<lambda>c. c = rune_of CHR ''\<newline>'') xs))"

lemma isAtEnd_rest: "isAtEnd s \<longleftrightarrow> rest s = []"
  by (simp add: isAtEnd_def rest_def)

lemma peek_rest: "peek s = (case rest s of [] \<Rightarrow> 0 | x # r \<Rightarrow> x)"
  by (auto simp: peek_def isAtEnd_def rest_def hd_drop_conv_nth split: list.splits
      dest!: arg_cong[where f=hd])

lemma rest_Cons:
  assumes "rest s = x # r"
  shows "current s < length (source s)" and "source s ! current s = x"
    and "drop (Suc (current s)) (source s) = r"
proof -
  show lt: "current s < length (source s)"
    using assms by (cases "current s < length (source s)") (simp_all add: rest_def)
  from Cons_nth_drop_Suc[OF lt] assms
  show "source s ! current s = x" "drop (Suc (current s)) (source s) = r"
    by (simp_all add: rest_def)
qed

lemma advance_Cons:
  "rest s = x # r \<Longrightarrow> advance s = Some (x, s\<lparr>current := Suc (current s)\<rparr>)"
  by (simp add: advance_def rest_Cons)

lemma rest_upd [simp]:
  "rest (s\<lparr>line := l\<rparr>) = rest s" "rest (s\<lparr>tokens := t\<rparr>) = rest s"
  "rest (s\<lparr>lox := x\<rparr>) = rest s" "rest (s\<lparr>start := n\<rparr>) = rest s"
  by (simp_all add: rest_def)

lemma rest_advance: "rest s = x # r \<Longrightarrow> rest (s\<lparr>current := Suc (current s)\<rparr>) = r"
  by (simp add: rest_def rest_Cons)

lemma number_loop_eq:
  "number_loop s = Some (s\<lparr>current := current s + length (takeWhile isDigit (rest s))\<rparr>)"
proof (induction "rest s" arbitrary: s)
  case Nil
  then show ?case by (subst number_loop.simps) (simp add: peek_rest isDigit_def rune_of_def)
next
  case (Cons x r)
  from Cons(2)[symmetric] have r: "rest s = x # r" .
  show ?case
  proof (cases "isDigit x")
    case True
    have "r = rest (s\<lparr>current := Suc (current s)\<rparr>)" using rest_advance[OF r] by simp
    from Cons(1)[OF this] show ?thesis
      by (subst number_loop.simps) (simp add: peek_rest r True advance_Cons rest_advance)
  next
    case False
    then show ?thesis by (subst number_loop.simps) (simp add: peek_rest r)
  qed
qed

lemma identifier_loop_eq:
  "identifier_loop s =
     Some (s\<lparr>current := current s + length (takeWhile isAlphaNumeric (rest s))\<rparr>)"
proof (induction "rest s" arbitrary: s)
  case Nil
  then show ?case
    by (subst identifier_loop.simps)
       (simp add: peek_rest isAlphaNumeric_def isAlpha_def isDigit_def rune_of_def)
next
  case (Cons x r)
  from Cons(2)[symmetric] have r: "rest s = x # r" .
  show ?case
  proof (cases "isAlphaNumeric x")
    case True
    have "r = rest (s\<lparr>current := Suc (current s)\<rparr>)" using rest_advance[OF r] by simp
    from Cons(1)[OF this] show ?thesis
      by (subst identifier_loop.simps) (simp add: peek_rest r True advance_Cons rest_advance)
  next
    case False
    then show ?thesis by (subst identifier_loop.simps) (simp add: peek_rest r)
  qed
qed

lemma lineComment_loop_eq:
  "lineComment_loop s =
     Some (s\<lparr>current := current s +
        length (takeWhile (\<lambda>c. c \<noteq> rune_of CHR ''\<newline>'') (rest s))\<rparr>)"
proof (induction "rest s" arbitrary: s)
  case Nil
  then show ?case
    by (subst lineComment_loop.simps) (simp add: isAtEnd_rest)
next
  case (Cons x r)
  from Cons(2)[symmetric] have r: "rest s = x # r" .
  show ?case
  proof (cases "x = rune_of CHR ''\<newline>''")
    case False
    have "r = rest (s\<lparr>current := Suc (current s)\<rparr>)" using rest_advance[OF r] by simp
    from Cons(1)[OF this] show ?thesis
      by (subst lineComment_loop.simps)
         (simp add: peek_rest isAtEnd_rest r False advance_Cons rest_advance)
  next
    case True
    then show ?thesis by (subst lineComment_loop.simps) (simp add: peek_rest r)
  qed
qed

lemma newlines_simps [simp]:
  "newlines [] = 0"
  "newlines (x # xs) = (if x = rune_of CHR ''\<newline>'' then 1 else 0) + newlines xs"
  "newlines (xs @ ys) = newlines xs + newlines ys"
  by (simp_all add: newlines_def)

lemma newlines_nonneg [simp]: "0 \<le> newlines xs"
  by (simp add: newlines_def)

lemma string_loop_eq:
  "string_loop s =
     Some (s\<lparr>current := current s + length (takeWhile (\<lambda>c. c \<noteq> rune_of (CHR 0x22)) (rest s)),
             line := line s + newlines (takeWhile (\<lambda>c. c \<noteq> rune_of (CHR 0x22)) (rest s))\<rparr>)"
proof (induction "rest s" arbitrary: s)
  case Nil
  then show ?case
    by (subst string_loop.simps) (simp add: isAtEnd_rest)
next
  case (Cons x r)
  from Cons(2)[symmetric] have r: "rest s = x # r" .
  show ?case
  proof (cases "x = rune_of (CHR 0x22)")
    case False
    let ?s1 = "if x = rune_of CHR ''\<newline>'' then s\<lparr>line := line s + 1\<rparr> else s"
    have r1: "rest ?s1 = x # r" using r by simp
    have "r = rest (?s1\<lparr>current := Suc (current ?s1)\<rparr>)" using rest_advance[OF r1] by simp
    from Cons(1)[OF this] show ?thesis
      apply (subst string_loop.simps)
      using rest_advance[OF r1] advance_Cons[OF r1] r False
      by (simp add: peek_rest isAtEnd_rest)
  next
    case True
    then show ?thesis by (subst string_loop.simps) (simp add: peek_rest r)
  qed
qed

text \<open>
  The position of the first \<^verbatim>\<open>*/\<close> in a text, if there is one: what the loop of
  \<^verbatim>\<open>blockComment\<close> looks for.
\<close>

fun find_close :: "rune list \<Rightarrow> nat option" where
  "find_close (x # y # r) =
     (if x = rune_of CHR ''*'' \<and> y = rune_of CHR ''/'' then Some 0
      else map_option Suc (find_close (y # r)))"
| "find_close r = None"

lemma peekNext_rest:
  "peekNext s = (case rest s of x # y # r \<Rightarrow> y | _ \<Rightarrow> 0)"
proof (cases "rest s")
  case Nil
  then show ?thesis by (simp add: peekNext_def rest_def)
next
  case (Cons x r)
  note c = rest_Cons[OF Cons]
  show ?thesis
  proof (cases r)
    case Nil
    with c(3) have "length (source s) \<le> Suc (current s)" by simp
    then show ?thesis using Cons Nil by (simp add: peekNext_def)
  next
    case (Cons y r')
    with c(3) have d: "drop (Suc (current s)) (source s) = y # r'" by simp
    then have lt: "Suc (current s) < length (source s)"
      by (cases "Suc (current s) < length (source s)") simp_all
    from Cons_nth_drop_Suc[OF lt] d have "source s ! Suc (current s) = y" by simp
    then show ?thesis using \<open>rest s = x # r\<close> Cons lt by (simp add: peekNext_def)
  qed
qed

lemma rest_length: "current s + length (rest s) = max (current s) (length (source s))"
  by (simp add: rest_def)

lemma blockComment_eq:
  "blockComment s = Some (case find_close (rest s) of
      Some i \<Rightarrow> s\<lparr>current := current s + i + 2, line := line s + newlines (take i (rest s))\<rparr>
    | None \<Rightarrow> s\<lparr>current := current s + length (rest s),
               line := line s + newlines (rest s),
               lox := reportError (lox s) (line s + newlines (rest s))
                        ErrUnterminatedBlockComment\<rparr>)"
proof (induction "rest s" arbitrary: s)
  case Nil
  then show ?case
    by (subst blockComment.simps) (simp add: isAtEnd_rest)
next
  case (Cons x r)
  from Cons(2)[symmetric] have r: "rest s = x # r" .
  show ?case
  proof (cases "x = rune_of CHR ''*'' \<and> (\<exists>r'. r = rune_of CHR ''/'' # r')")
    case True
    then obtain r' where x: "x = rune_of CHR ''*''" and r': "r = rune_of CHR ''/'' # r'" by blast
    have r1: "rest (s\<lparr>current := Suc (current s)\<rparr>) = rune_of CHR ''/'' # r'"
      using rest_advance[OF r] r' by simp
    show ?thesis
      apply (subst blockComment.simps)
      using advance_Cons[OF r] advance_Cons[OF r1] r x r'
      by (simp add: isAtEnd_rest peek_rest peekNext_rest)
  next
    case False
    let ?s1 = "if x = rune_of CHR ''\<newline>'' then s\<lparr>line := line s + 1\<rparr> else s"
    have r1: "rest ?s1 = x # r" using r by simp
    have "r = rest (?s1\<lparr>current := Suc (current ?s1)\<rparr>)" using rest_advance[OF r1] by simp
    note IH = Cons(1)[OF this]
    have fc: "find_close (x # r) = map_option Suc (find_close r)"
      using False by (cases r) auto
    from False have cond: "\<not> (peek s = rune_of CHR ''*'' \<and> peekNext s = rune_of CHR ''/'')"
      using r by (auto simp: peek_rest peekNext_rest rune_of_def split: list.splits)
    have step: "blockComment s = blockComment (?s1\<lparr>current := Suc (current ?s1)\<rparr>)"
      using advance_Cons[OF r1] r cond
      by (auto simp add: blockComment.simps[of s] isAtEnd_rest peek_rest)
    have nl: "newlines (x # r) = (line ?s1 - line s) + newlines r" by simp
    have nl2: "find_close r = Some i \<Longrightarrow> newlines (take (Suc i) (x # r)) =
        (line ?s1 - line s) + newlines (take i r)" for i by simp
    show ?thesis
      unfolding step IH
      using rest_advance[OF r1] r fc
      by (cases "find_close r"; cases "x = rune_of CHR ''\<newline>''") (simp_all add: ac_simps)
  qed
qed

text \<open>
  The text \<^verbatim>\<open>s.source[s.start:s.current]\<close> of the current lexeme, and the condition under
  which that slice expression does not panic.
\<close>

definition lexeme :: "scanner \<Rightarrow> rune list" where
  "lexeme s = take (current s - start s) (drop (start s) (source s))"

definition inb :: "scanner \<Rightarrow> bool" where
  "inb s \<longleftrightarrow> start s \<le> current s \<and> current s \<le> length (source s)"

lemma lexeme_upd [simp]:
  "lexeme (s\<lparr>line := l\<rparr>) = lexeme s" "lexeme (s\<lparr>tokens := t\<rparr>) = lexeme s"
  "lexeme (s\<lparr>lox := x\<rparr>) = lexeme s"
  by (simp_all add: lexeme_def)

lemma inb_upd [simp]:
  "inb (s\<lparr>line := l\<rparr>) = inb s" "inb (s\<lparr>tokens := t\<rparr>) = inb s"
  "inb (s\<lparr>lox := x\<rparr>) = inb s"
  by (simp_all add: inb_def)

lemma rest_current: "rest (s\<lparr>current := current s + k\<rparr>) = drop k (rest s)"
  by (simp add: rest_def add.commute)

lemma match_rest:
  "match s e = (case rest s of [] \<Rightarrow> (False, s)
     | x # r \<Rightarrow> if x = e then (True, s\<lparr>current := Suc (current s)\<rparr>) else (False, s))"
  by (auto simp: match_def isAtEnd_rest rest_Cons split: list.splits)

lemma slice_lexeme:
  "inb s \<Longrightarrow> slice (source s) (int (start s)) (int (current s)) = Some (lexeme s)"
  by (simp add: slice_def lexeme_def inb_def nat_diff_distrib' flip: of_nat_diff)

lemma addTokenWithLiteral_eq:
  "inb s \<Longrightarrow> addTokenWithLiteral s ty lit =
     Some (s\<lparr>tokens := tokens s @
       [\<lparr>TokenType = ty, Lexeme = lexeme s, Literal = lit, Line = line s\<rparr>]\<rparr>)"
  by (simp add: addTokenWithLiteral_def slice_lexeme)

lemma keywords_not_EOF: "keywords' t = Some ty \<Longrightarrow> ty \<noteq> EOF"
  by (auto simp: keywords'_def split: if_splits)

text \<open>
  The number of runes that \<^verbatim>\<open>number\<close> consumes from the input that follows the first
  digit of a literal.
\<close>

definition number_len :: "rune list \<Rightarrow> nat" where
  "number_len r =
     (let d = takeWhile isDigit r; r1 = dropWhile isDigit r
      in length d +
         (case r1 of
            x # y # r2 \<Rightarrow>
              if x = rune_of CHR ''.'' \<and> isDigit y
              then 1 + length (takeWhile isDigit (y # r2)) else 0
          | _ \<Rightarrow> 0))"

lemma number_eq:
  assumes "inb s"
  shows "number s = Some
     (let s2 = s\<lparr>current := current s + number_len (rest s)\<rparr>
      in case ParseFloat (lexeme s2) of
           Inl e \<Rightarrow> s2\<lparr>lox := reportError (lox s) (line s) ErrInvalidNumberLiteral\<rparr>
         | Inr v \<Rightarrow> s2\<lparr>tokens := tokens s @
             [\<lparr>TokenType = NUMBER, Lexeme = lexeme s2, Literal = LitFloat v,
               Line = line s\<rparr>]\<rparr>)"
proof -
  let ?d = "takeWhile isDigit (rest s)"
  let ?r1 = "dropWhile isDigit (rest s)"
  let ?s1 = "s\<lparr>current := current s + length ?d\<rparr>"
  have r1: "rest ?s1 = ?r1" by (simp add: rest_current dropWhile_eq_drop)
  have len: "current s + length (rest s) = length (source s)"
    using assms by (simp add: rest_length inb_def)
  have le: "number_len (rest s) \<le> length (rest s)"
  proof -
    have a: "length ?d + length ?r1 = length (rest s)"
      by (metis length_append takeWhile_dropWhile_id)
    have b: "length (takeWhile isDigit xs) \<le> length xs" for xs :: "rune list"
      by (rule length_takeWhile_le)
    show ?thesis
      using a b[of "tl ?r1"]
      by (auto simp: number_len_def Let_def split: list.splits)
  qed
  have inb2: "inb (s\<lparr>current := current s + number_len (rest s)\<rparr>)"
    using assms le len by (simp add: inb_def)
  let ?s2 = "s\<lparr>current := current s + number_len (rest s)\<rparr>"
  have l1: "number_loop s = Some ?s1" by (rule number_loop_eq)
  have mid: "(if peek ?s1 = rune_of CHR ''.'' \<and> isDigit (peekNext ?s1)
              then do { (c, s') \<leftarrow> advance ?s1; number_loop s' }
              else Some ?s1) = Some ?s2"
  proof (cases "peek ?s1 = rune_of CHR ''.'' \<and> isDigit (peekNext ?s1)")
    case True
    then obtain y r2 where r1': "?r1 = rune_of CHR ''.'' # y # r2" and y: "isDigit y"
      unfolding peek_rest peekNext_rest r1
      by (auto split: list.splits simp: isDigit_def rune_of_def)
    have nl: "number_len (rest s) = length ?d + 1 + length (takeWhile isDigit (y # r2))"
      using r1' y by (simp add: number_len_def)
    have adv: "advance ?s1 = Some (rune_of CHR ''.'', ?s1\<lparr>current := Suc (current ?s1)\<rparr>)"
      using advance_Cons[of ?s1] r1 r1' by simp
    have r2: "rest (?s1\<lparr>current := Suc (current ?s1)\<rparr>) = y # r2"
      using rest_advance[of ?s1] r1 r1' by simp
    have "number_loop (?s1\<lparr>current := Suc (current ?s1)\<rparr>) = Some ?s2"
      unfolding number_loop_eq r2 nl by simp
    with True adv show ?thesis by simp
  next
    case False
    have "P r1 \<Longrightarrow> (case r1 of x # y # r2 \<Rightarrow>
              if x = rune_of CHR ''.'' \<and> isDigit y
              then 1 + length (takeWhile isDigit (y # r2)) else 0
          | _ \<Rightarrow> 0) = (0::nat)"
      if "P = (\<lambda>r1. \<not> ((case r1 of [] \<Rightarrow> 0 | x # r \<Rightarrow> x) = rune_of CHR ''.'' \<and>
          isDigit (case r1 of x # y # r \<Rightarrow> y | _ \<Rightarrow> 0)))" for P and r1 :: "rune list"
      unfolding that by (auto split: list.splits)
    from this[OF refl, of ?r1] False have nl: "number_len (rest s) = length ?d"
      unfolding peek_rest peekNext_rest r1 number_len_def Let_def by simp
    with False show ?thesis by auto
  qed
  have fin: "(case ParseFloat (lexeme ?s2) of
        Inl err \<Rightarrow> Some (?s2\<lparr>lox := reportError (lox ?s2) (line ?s2) ErrInvalidNumberLiteral\<rparr>)
      | Inr v \<Rightarrow> addTokenWithLiteral ?s2 NUMBER (LitFloat v)) =
     Some (case ParseFloat (lexeme ?s2) of
           Inl e \<Rightarrow> ?s2\<lparr>lox := reportError (lox s) (line s) ErrInvalidNumberLiteral\<rparr>
         | Inr v \<Rightarrow> ?s2\<lparr>tokens := tokens s @
             [\<lparr>TokenType = NUMBER, Lexeme = lexeme ?s2, Literal = LitFloat v,
               Line = line s\<rparr>]\<rparr>)"
    by (simp add: addTokenWithLiteral_eq[OF inb2] split: sum.splits)
  show ?thesis
    unfolding number_def Let_def
    by (simp only: l1 mid slice_lexeme[OF inb2] fin Option.bind.bind_lunit)
qed

section \<open>What every routine preserves\<close>

text \<open>
  A summary that holds of every routine called by \<^verbatim>\<open>scanToken\<close>: the source and the
  start of the lexeme stay, the cursor and the line counter do not go back, at most one
  token is appended (never EOF, and on the line reached), and at most one error is
  reported (at the line reached).
\<close>

definition after :: "scanner \<Rightarrow> scanner \<Rightarrow> bool" where
  "after s s' \<longleftrightarrow>
     source s' = source s \<and> start s' = start s \<and>
     current s \<le> current s' \<and> current s' \<le> length (source s) \<and>
     line s \<le> line s' \<and>
     (tokens s' = tokens s \<or>
      (\<exists>t. tokens s' = tokens s @ [t] \<and> TokenType t \<noteq> EOF \<and> Line t = line s')) \<and>
     (lox s' = lox s \<or> (\<exists>e. lox s' = reportError (lox s) (line s') e))"

lemma inb_current: "inb s \<Longrightarrow> k \<le> length (rest s) \<Longrightarrow> inb (s\<lparr>current := current s + k\<rparr>)"
  using rest_length[of s] by (simp add: inb_def)

lemma inb_Suc: "inb s \<Longrightarrow> rest s = x # r \<Longrightarrow> inb (s\<lparr>current := Suc (current s)\<rparr>)"
  using inb_current[of s 1] by simp

lemma inb_len: "inb s \<Longrightarrow> current s + length (rest s) = length (source s)"
  using rest_length[of s] by (simp add: inb_def)

lemma addToken_after:
  "inb s \<Longrightarrow> ty \<noteq> EOF \<Longrightarrow> \<exists>s'. addToken s ty = Some s' \<and> after s s'"
  by (simp add: addToken_def addTokenWithLiteral_eq after_def inb_def)

lemma after_Suc:
  assumes "rest s = x # r" and "after (s\<lparr>current := Suc (current s)\<rparr>) s'"
  shows "after s s'"
  using assms(2) by (auto simp: after_def)

lemma match_addToken_after:
  assumes "inb s" "ty1 \<noteq> EOF" "ty2 \<noteq> EOF"
  shows "\<exists>s'. (case match s e of (True, s') \<Rightarrow> addToken s' ty1
                | (False, s') \<Rightarrow> addToken s' ty2) = Some s' \<and> after s s'"
proof (cases "rest s")
  case Nil
  then show ?thesis using addToken_after[OF assms(1,3)] by (simp add: match_rest)
next
  case (Cons x r)
  show ?thesis
  proof (cases "x = e")
    case True
    from addToken_after[OF inb_Suc[OF assms(1) Cons] assms(2)] after_Suc[OF Cons]
    show ?thesis using Cons True by (auto simp: match_rest)
  next
    case False
    then show ?thesis using addToken_after[OF assms(1,3)] Cons by (simp add: match_rest)
  qed
qed

lemma length_takeWhile_rest: "length (takeWhile P (rest s)) \<le> length (rest s)"
  by (rule length_takeWhile_le)

lemma lineComment_after: "inb s \<Longrightarrow> \<exists>s'. lineComment_loop s = Some s' \<and> after s s'"
  using inb_len[of s] length_takeWhile_rest[of "\<lambda>c. c \<noteq> rune_of CHR ''\<newline>''" s]
  by (simp add: lineComment_loop_eq after_def)

lemma find_close_le: "find_close r = Some i \<Longrightarrow> i + 2 \<le> length r"
  by (induction r arbitrary: i rule: find_close.induct) (auto split: if_splits)

lemma blockComment_after: "inb s \<Longrightarrow> \<exists>s'. blockComment s = Some s' \<and> after s s'"
  using inb_len[of s] find_close_le[of "rest s"]
  by (auto simp add: blockComment_eq after_def split: option.splits)

lemma slash_after:
  assumes "inb s"
  shows "\<exists>s'. (case match s (rune_of CHR ''/'') of
          (True, s1) \<Rightarrow> lineComment_loop s1
        | (False, s1) \<Rightarrow>
            (case match s1 (rune_of CHR ''*'') of
               (True, s2) \<Rightarrow> blockComment s2
             | (False, s2) \<Rightarrow> addToken s2 SLASH)) = Some s' \<and> after s s'"
proof (cases "rest s")
  case Nil
  then show ?thesis using addToken_after[OF assms, of SLASH] by (simp add: match_rest)
next
  case (Cons x r)
  note i1 = inb_Suc[OF assms Cons]
  consider "x = rune_of CHR ''/''" | "x = rune_of CHR ''*''"
    | "x \<noteq> rune_of CHR ''/''" "x \<noteq> rune_of CHR ''*''" by blast
  then show ?thesis
  proof cases
    case 1
    with lineComment_after[OF i1] after_Suc[OF Cons] Cons show ?thesis
      by (auto simp: match_rest)
  next
    case 2
    with blockComment_after[OF i1] after_Suc[OF Cons] Cons show ?thesis
      by (auto simp: match_rest rune_of_def)
  next
    case 3
    with addToken_after[OF assms, of SLASH] Cons show ?thesis
      by (simp add: match_rest)
  qed
qed

lemma number_len_le: "number_len r \<le> length r"
proof -
  let ?d = "takeWhile isDigit r" and ?r1 = "dropWhile isDigit r"
  have a: "length ?d + length ?r1 = length r"
    by (metis length_append takeWhile_dropWhile_id)
  have b: "length (takeWhile isDigit xs) \<le> length xs" for xs :: "rune list"
    by (rule length_takeWhile_le)
  show ?thesis
    using a b[of "tl ?r1"]
    by (auto simp: number_len_def Let_def split: list.splits)
qed

lemma number_after: "inb s \<Longrightarrow> \<exists>s'. number s = Some s' \<and> after s s'"
  using inb_len[of s] number_len_le[of "rest s"]
  by (auto simp add: number_eq after_def Let_def split: sum.splits)

lemma identifier_eq:
  assumes "inb s"
  shows "identifier' s = Some
     (let s1 = s\<lparr>current := current s + length (takeWhile isAlphaNumeric (rest s))\<rparr>
      in s1\<lparr>tokens := tokens s @
           [\<lparr>TokenType = (case keywords' (lexeme s1) of Some ty \<Rightarrow> ty | None \<Rightarrow> IDENTIFIER),
             Lexeme = lexeme s1, Literal = LitNil, Line = line s\<rparr>]\<rparr>)"
proof -
  let ?s1 = "s\<lparr>current := current s + length (takeWhile isAlphaNumeric (rest s))\<rparr>"
  have i1: "inb ?s1"
    by (rule inb_current[OF assms length_takeWhile_rest])
  have sl: "slice (source ?s1) (int (start ?s1)) (int (current ?s1)) = Some (lexeme ?s1)"
    by (rule slice_lexeme[OF i1])
  show ?thesis
    unfolding identifier'_def identifier_loop_eq Option.bind.bind_lunit sl
    by (simp add: addToken_def addTokenWithLiteral_eq[OF i1] Let_def split: option.splits)
qed

lemma identifier_after: "inb s \<Longrightarrow> \<exists>s'. identifier' s = Some s' \<and> after s s'"
  using inb_len[of s] length_takeWhile_rest[of isAlphaNumeric s]
  by (auto simp add: identifier_eq after_def Let_def keywords_not_EOF split: option.splits)

text \<open>The runes up to the next double quote: what the loop of \<^verbatim>\<open>string\<close> consumes.\<close>

definition str_body :: "rune list \<Rightarrow> rune list" where
  "str_body r = takeWhile (\<lambda>c. c \<noteq> rune_of (CHR 0x22)) r"

lemma str_body_le: "length (str_body r) \<le> length r"
  unfolding str_body_def by (rule length_takeWhile_le)

lemma string_eq:
  assumes "inb s" and "start s < current s"
  shows "string s = Some
     (let a = str_body (rest s);
          s1 = s\<lparr>current := current s + length a, line := line s + newlines a\<rparr>
      in if length a = length (rest s)
         then s1\<lparr>lox := reportError (lox s) (line s1) ErrUnterminatedString\<rparr>
         else let s2 = s1\<lparr>current := Suc (current s + length a)\<rparr>
              in s2\<lparr>tokens := tokens s @
                   [\<lparr>TokenType = STRING, Lexeme = lexeme s2,
                     Literal = LitString (take (current s2 - start s - 2)
                                 (drop (Suc (start s)) (source s))),
                     Line = line s1\<rparr>]\<rparr>)"
proof -
  let ?a = "str_body (rest s)"
  let ?s1 = "s\<lparr>current := current s + length ?a, line := line s + newlines ?a\<rparr>"
  have l1: "string_loop s = Some ?s1"
    unfolding str_body_def by (rule string_loop_eq)
  have r1: "rest ?s1 = drop (length ?a) (rest s)"
    by (simp add: rest_def add.commute)
  have end1: "isAtEnd ?s1 \<longleftrightarrow> length ?a = length (rest s)"
    unfolding isAtEnd_rest r1 using str_body_le[of "rest s"] by auto
  show ?thesis
  proof (cases "length ?a = length (rest s)")
    case True
    with end1 have "isAtEnd ?s1" by simp
    then show ?thesis
      unfolding string_def l1 Option.bind.bind_lunit
      using True by (simp add: Let_def)
  next
    case False
    then obtain x r where xr: "rest ?s1 = x # r"
      unfolding r1 using str_body_le[of "rest s"] by (cases "drop (length ?a) (rest s)") auto
    let ?s2 = "?s1\<lparr>current := Suc (current ?s1)\<rparr>"
    have adv: "advance ?s1 = Some (x, ?s2)" by (rule advance_Cons[OF xr])
    have lt: "length ?a < length (rest s)" using False str_body_le[of "rest s"] by simp
    have i2: "inb ?s2"
      using assms(1) lt inb_len[OF assms(1)] by (simp add: inb_def)
    have sl: "slice (source ?s2) (int (start ?s2) + 1) (int (current ?s2) - 1) =
        Some (take (current ?s2 - start s - 2) (drop (Suc (start s)) (source s)))"
      using assms lt inb_len[OF assms(1)]
      by (auto simp add: slice_def inb_def nat_add_distrib nat_diff_distrib')
    from end1 False have ne: "\<not> isAtEnd ?s1" by simp
    show ?thesis
      unfolding string_def l1 Option.bind.bind_lunit
      using False ne adv sl i2
      by (simp add: Let_def addTokenWithLiteral_eq)
  qed
qed

lemma string_after:
  "inb s \<Longrightarrow> start s < current s \<Longrightarrow> \<exists>s'. string s = Some s' \<and> after s s'"
  using inb_len[of s] str_body_le[of "rest s"]
  by (auto simp add: string_eq after_def Let_def)

text \<open>One call of \<^verbatim>\<open>scanToken\<close>: the summary above, and the cursor moves forward.\<close>

definition scan_step :: "scanner \<Rightarrow> scanner \<Rightarrow> bool" where
  "scan_step s s' \<longleftrightarrow> after s s' \<and> current s < current s'"

lemma after_inb: "inb s \<Longrightarrow> after s s' \<Longrightarrow> inb s'"
  by (simp add: after_def inb_def)

lemma plain_after: "inb s \<Longrightarrow> after s s"
  by (simp add: after_def inb_def)

lemma newline_after: "inb s \<Longrightarrow> after s (s\<lparr>line := line s + 1\<rparr>)"
  by (simp add: after_def inb_def)

lemma report_after: "inb s \<Longrightarrow> after s (s\<lparr>lox := reportError (lox s) (line s) e\<rparr>)"
  by (auto simp add: after_def inb_def)

lemma scanToken_after:
  assumes "inb s" and "\<not> isAtEnd s"
  shows "\<exists>s'. scanToken s = Some s' \<and> scan_step s s'"
proof -
  from assms(2) obtain c r where cr: "rest s = c # r"
    by (cases "rest s") (simp_all add: isAtEnd_rest)
  let ?s1 = "s\<lparr>current := Suc (current s)\<rparr>"
  have adv: "advance s = Some (c, ?s1)" by (rule advance_Cons[OF cr])
  have i1: "inb ?s1" by (rule inb_Suc[OF assms(1) cr])
  have lt: "start ?s1 < current ?s1" using assms(1) by (simp add: inb_def)
  have eof: "LEFT_PAREN \<noteq> EOF" "RIGHT_PAREN \<noteq> EOF" "LEFT_BRACE \<noteq> EOF" "RIGHT_BRACE \<noteq> EOF"
    "COMMA \<noteq> EOF" "DOT \<noteq> EOF" "MINUS \<noteq> EOF" "PLUS \<noteq> EOF" "SEMICOLON \<noteq> EOF" "STAR \<noteq> EOF"
    "BANG \<noteq> EOF" "BANG_EQUAL \<noteq> EOF" "EQUAL \<noteq> EOF" "EQUAL_EQUAL \<noteq> EOF"
    "LESS \<noteq> EOF" "LESS_EQUAL \<noteq> EOF" "GREATER \<noteq> EOF" "GREATER_EQUAL \<noteq> EOF"
    by simp_all
  define Q where "Q x \<longleftrightarrow> (\<exists>s'. x = Some s' \<and> after ?s1 s')" for x
  have ifQ: "(b \<Longrightarrow> Q x) \<Longrightarrow> (\<not> b \<Longrightarrow> Q y) \<Longrightarrow> Q (if b then x else y)" for b x y
    by simp
  have someQ: "after ?s1 s' \<Longrightarrow> Q (Some s')" for s'
    by (simp add: Q_def)
  note rules = addToken_after[OF i1, folded Q_def] match_addToken_after[OF i1, folded Q_def]
    slash_after[OF i1, folded Q_def]
    string_after[OF i1 lt, folded Q_def] number_after[OF i1, folded Q_def]
    identifier_after[OF i1, folded Q_def]
    someQ[OF plain_after[OF i1]] someQ[OF newline_after[OF i1]] someQ[OF report_after[OF i1]]
  have "Q (scanToken s)"
    unfolding scanToken_def adv Option.bind.bind_lunit prod.case
    by (intro ifQ rules eof)
  then have "\<exists>s'. scanToken s = Some s' \<and> after ?s1 s'" by (simp add: Q_def)
  then show ?thesis
    unfolding scan_step_def using after_Suc[OF cr] by (auto simp: after_def)
qed

section \<open>Scanning a whole source\<close>

text \<open>
  The loop \<^verbatim>\<open>for !s.isAtEnd() { s.start = s.current; s.scanToken() }\<close> of
  \<^verbatim>\<open>ScanTokens\<close>. It terminates because every \<^verbatim>\<open>scanToken\<close> that returns has
  consumed at least one rune.
\<close>

function ScanTokens_loop :: "scanner \<Rightarrow> scanner option" where
  "ScanTokens_loop s =
     (if \<not> isAtEnd s
      then (case scanToken (s\<lparr>start := current s\<rparr>) of
              None \<Rightarrow> None
            | Some s' \<Rightarrow> ScanTokens_loop s')
      else Some s)"
  by pat_completeness auto
termination
proof (relation "measure (\<lambda>s. length (source s) - current s)")
  show "wf (measure (\<lambda>s. length (source s) - current s))" by simp
next
  fix s s' :: scanner
  assume ne: "\<not> isAtEnd s" and st: "scanToken (s\<lparr>start := current s\<rparr>) = Some s'"
  let ?s0 = "s\<lparr>start := current s\<rparr>"
  have "inb ?s0" using ne by (simp add: inb_def isAtEnd_def)
  moreover have "\<not> isAtEnd ?s0" using ne by (simp add: isAtEnd_def)
  ultimately obtain s'' where "scanToken ?s0 = Some s''" "scan_step ?s0 s''"
    using scanToken_after by blast
  with st have "scan_step ?s0 s'" by simp
  then show "(s', s) \<in> measure (\<lambda>s. length (source s) - current s)"
    by (auto simp: scan_step_def after_def)
qed

declare ScanTokens_loop.simps [simp del]

text \<open>
  \<^verbatim>\<open>ScanTokens\<close> returns the token slice; the model returns the final scanner with it,
  whose field \<open>lox\<close> holds what was reported.
\<close>

definition ScanTokens :: "scanner \<Rightarrow> (token list \<times> scanner) option" where
  "ScanTokens s0 = do {
     s \<leftarrow> ScanTokens_loop s0;
     let s' = s\<lparr>tokens := tokens s @
                [\<lparr>TokenType = EOF, Lexeme = [], Literal = LitNil, Line = line s\<rparr>]\<rparr>;
     Some (tokens s', s')
   }"

text \<open>
  The \<^verbatim>\<open>scan\<close> of the specification: what \<^verbatim>\<open>Lox.run\<close> computes before it prints the
  tokens, with the fresh sink \<^verbatim>\<open>&Lox{}\<close> of \<^verbatim>\<open>main\<close>. The result is the token sequence
  and the sink after the scan.
\<close>

definition scan :: "rune list \<Rightarrow> (token list \<times> lox) option" where
  "scan src =
     map_option (\<lambda>(ts, s). (ts, lox s))
       (ScanTokens (NewScanner src \<lparr>hadError = False, reports = []\<rparr>))"

lemma ScanTokens_loop_inv:
  assumes "current s \<le> length (source s)"
  shows "\<exists>s' ts. ScanTokens_loop s = Some s' \<and> source s' = source s \<and>
           current s' = length (source s) \<and> line s \<le> line s' \<and>
           tokens s' = tokens s @ ts \<and>
           list_all (\<lambda>t. TokenType t \<noteq> EOF \<and> line s \<le> Line t \<and> Line t \<le> line s') ts \<and>
           sorted (map Line ts)"
  using assms
proof (induction s rule: ScanTokens_loop.induct)
  case (1 s)
  show ?case
  proof (cases "isAtEnd s")
    case True
    with "1.prems" show ?thesis
      by (simp add: ScanTokens_loop.simps[of s] isAtEnd_def)
  next
    case False
    let ?s0 = "s\<lparr>start := current s\<rparr>"
    have "inb ?s0" using False by (simp add: inb_def isAtEnd_def)
    moreover have "\<not> isAtEnd ?s0" using False by (simp add: isAtEnd_def)
    ultimately obtain s1 where st: "scanToken ?s0 = Some s1" and ss: "scan_step ?s0 s1"
      using scanToken_after by blast
    from ss have le: "current s1 \<le> length (source s1)"
      by (simp add: scan_step_def after_def)
    from "1.IH"[OF False st le] obtain s' ts where
      IH: "ScanTokens_loop s1 = Some s'" "source s' = source s1"
        "current s' = length (source s1)" "line s1 \<le> line s'"
        "tokens s' = tokens s1 @ ts"
        "list_all (\<lambda>t. TokenType t \<noteq> EOF \<and> line s1 \<le> Line t \<and> Line t \<le> line s') ts"
        "sorted (map Line ts)"
      by blast
    have loop: "ScanTokens_loop s = Some s'"
      using False st IH(1) by (simp add: ScanTokens_loop.simps[of s])
    from ss have src: "source s1 = source s" and ln: "line s \<le> line s1"
      by (simp_all add: scan_step_def after_def)
    from ss consider "tokens s1 = tokens s"
      | t where "tokens s1 = tokens s @ [t]" "TokenType t \<noteq> EOF" "Line t = line s1"
      by (auto simp: scan_step_def after_def)
    then show ?thesis
    proof cases
      case 1
      have "list_all (\<lambda>t. TokenType t \<noteq> EOF \<and> line s \<le> Line t \<and> Line t \<le> line s') ts"
        using IH(6) ln by (auto simp: list_all_iff)
      with loop IH src ln 1 show ?thesis by auto
    next
      case 2
      have a: "list_all (\<lambda>t. TokenType t \<noteq> EOF \<and> line s \<le> Line t \<and> Line t \<le> line s') (t # ts)"
        using IH(4,6) ln 2 by (auto simp: list_all_iff)
      have b: "sorted (map Line (t # ts))"
        using IH(6,7) 2 by (auto simp: list_all_iff)
      have c: "tokens s' = tokens s @ (t # ts)" using IH(5) 2 by simp
      from loop IH(2,3,4) src ln a b c show ?thesis by fastforce
    qed
  qed
qed

section \<open>The token sequence ends in one EOF token\<close>

text \<open>
  Claim C1. For every source text, \<^verbatim>\<open>ScanTokens\<close> on a new scanner returns (it neither
  panics nor runs forever: \<open>ScanTokens_loop\<close> is a total function and the result is
  \<open>Some\<close>); the token sequence is not empty, its last element is an EOF token with the
  empty lexeme, and that is the only token of type EOF. Scanning the empty source gives
  exactly one EOF token, at line 1.
\<close>

theorem ScanTokens_ends_in_one_EOF:
  "\<exists>ts s'. ScanTokens (NewScanner src l) = Some (ts, s') \<and> ts \<noteq> [] \<and>
      last ts = \<lparr>TokenType = EOF, Lexeme = [], Literal = LitNil, Line = line s'\<rparr> \<and>
      filter (\<lambda>t. TokenType t = EOF) ts = [last ts] \<and>
      ScanTokens (NewScanner [] l) =
        Some ([\<lparr>TokenType = EOF, Lexeme = [], Literal = LitNil, Line = 1\<rparr>],
              (NewScanner [] l)\<lparr>tokens :=
                 [\<lparr>TokenType = EOF, Lexeme = [], Literal = LitNil, Line = 1\<rparr>]\<rparr>)"
proof -
  let ?s = "NewScanner src l"
  have "current ?s \<le> length (source ?s)" by (simp add: NewScanner_def)
  from ScanTokens_loop_inv[OF this] obtain s' ts where
    l: "ScanTokens_loop ?s = Some s'" and t: "tokens s' = ts"
    and a: "list_all (\<lambda>t. TokenType t \<noteq> EOF \<and> line ?s \<le> Line t \<and> Line t \<le> line s') ts"
    by (auto simp: NewScanner_def)
  have f: "filter (\<lambda>t. TokenType t = EOF) ts = []"
    using a by (auto simp: list_all_iff filter_empty_conv)
  have e: "ScanTokens_loop (NewScanner [] l) = Some (NewScanner [] l)"
    by (subst ScanTokens_loop.simps) (simp add: isAtEnd_def NewScanner_def)
  show ?thesis
    unfolding ScanTokens_def l e Option.bind.bind_lunit
    using f t by (simp add: Let_def NewScanner_def)
qed

section \<open>Evaluating the scanner on a given source\<close>

lemmas eval_defs = scan_def ScanTokens_def ScanTokens_loop.simps scanToken_def NewScanner_def
  isAtEnd_def advance_def peek_def peekNext_def match_def isDigit_def isAlpha_def isAlphaNumeric_def
  addToken_def addTokenWithLiteral_def slice_def keywords'_def runes_def rune_of_def
  identifier_loop.simps identifier'_def number_loop.simps number_def string_loop.simps string_def
  blockComment.simps lineComment_loop.simps reportError_def report_def Let_def

section \<open>Operators of one or two characters\<close>

lemma lexeme_fresh:
  "start s = current s \<Longrightarrow> rest s = xs @ ys \<Longrightarrow>
   lexeme (s\<lparr>current := current s + length xs\<rparr>) = xs"
  by (simp add: lexeme_def rest_def)

lemma inb_fresh: "start s = current s \<Longrightarrow> rest s = x # r \<Longrightarrow> inb s"
  using rest_Cons(1)[of s x r] by (simp add: inb_def)

text \<open>
  Claim C6. When \<^verbatim>\<open>scanToken\<close> starts a lexeme at one of the characters \<^verbatim>\<open>! = < >\<close>,
  it emits the two-character token exactly when the next character is \<^verbatim>\<open>=\<close>, and then
  consumes that character too; otherwise it emits the one-character token and consumes
  nothing more. The source \<^verbatim>\<open>!=<<=\<close> gives BANG_EQUAL, LESS, LESS_EQUAL, EOF and no
  report.
\<close>

theorem operator_lookahead:
  "(c, one, two) \<in> {(rune_of CHR ''!'', BANG, BANG_EQUAL), (rune_of CHR ''='', EQUAL, EQUAL_EQUAL),
                     (rune_of CHR ''<'', LESS, LESS_EQUAL), (rune_of CHR ''>'', GREATER, GREATER_EQUAL)}
   \<Longrightarrow> start s = current s \<Longrightarrow> rest s = c # r \<Longrightarrow>
   scanToken s = Some
     (if r \<noteq> [] \<and> hd r = rune_of CHR ''=''
      then s\<lparr>current := current s + 2,
             tokens := tokens s @ [\<lparr>TokenType = two, Lexeme = [c, rune_of CHR ''=''],
                                   Literal = LitNil, Line = line s\<rparr>]\<rparr>
      else s\<lparr>current := current s + 1,
             tokens := tokens s @ [\<lparr>TokenType = one, Lexeme = [c],
                                   Literal = LitNil, Line = line s\<rparr>]\<rparr>) \<and>
   scan (runes ''!=<<='') = Some
     ([\<lparr>TokenType = BANG_EQUAL, Lexeme = runes ''!='', Literal = LitNil, Line = 1\<rparr>,
       \<lparr>TokenType = LESS, Lexeme = runes ''<'', Literal = LitNil, Line = 1\<rparr>,
       \<lparr>TokenType = LESS_EQUAL, Lexeme = runes ''<='', Literal = LitNil, Line = 1\<rparr>,
       \<lparr>TokenType = EOF, Lexeme = [], Literal = LitNil, Line = 1\<rparr>],
      \<lparr>hadError = False, reports = []\<rparr>)"
proof (intro conjI)
  assume c: "(c, one, two) \<in> {(rune_of CHR ''!'', BANG, BANG_EQUAL),
      (rune_of CHR ''='', EQUAL, EQUAL_EQUAL), (rune_of CHR ''<'', LESS, LESS_EQUAL),
      (rune_of CHR ''>'', GREATER, GREATER_EQUAL)}"
    and st: "start s = current s" and r: "rest s = c # r"
  let ?s1 = "s\<lparr>current := Suc (current s)\<rparr>"
  have adv: "advance s = Some (c, ?s1)" by (rule advance_Cons[OF r])
  have r1: "rest ?s1 = r" by (rule rest_advance[OF r])
  have i1: "inb ?s1" by (rule inb_Suc[OF inb_fresh[OF st r] r])
  have lx1: "lexeme ?s1 = [c]" using lexeme_fresh[OF st, of "[c]" r] r by simp
  have m: "(case match ?s1 (rune_of CHR ''='') of
          (True, s') \<Rightarrow> addToken s' two | (False, s') \<Rightarrow> addToken s' one) =
      Some (if r \<noteq> [] \<and> hd r = rune_of CHR ''=''
      then s\<lparr>current := current s + 2,
             tokens := tokens s @ [\<lparr>TokenType = two, Lexeme = [c, rune_of CHR ''=''],
                                   Literal = LitNil, Line = line s\<rparr>]\<rparr>
      else s\<lparr>current := current s + 1,
             tokens := tokens s @ [\<lparr>TokenType = one, Lexeme = [c],
                                   Literal = LitNil, Line = line s\<rparr>]\<rparr>)"
  proof (cases "r \<noteq> [] \<and> hd r = rune_of CHR ''=''")
    case True
    then obtain r' where r': "r = rune_of CHR ''='' # r'" by (cases r) auto
    have i2: "inb (?s1\<lparr>current := Suc (current ?s1)\<rparr>)"
      using inb_Suc[OF i1] r1 r' by simp
    have lx2: "lexeme (s\<lparr>current := current s + 2\<rparr>) = [c, rune_of CHR ''='']"
      using lexeme_fresh[OF st, of "[c, rune_of CHR ''='']" r'] r r' by simp
    show ?thesis
      using True r1 r' i2 lx2
      by (simp add: match_rest addToken_def addTokenWithLiteral_eq)
  next
    case False
    then show ?thesis
      using r1 i1 lx1
      by (cases r) (auto simp add: match_rest addToken_def addTokenWithLiteral_eq)
  qed
  from c show "scanToken s = Some
     (if r \<noteq> [] \<and> hd r = rune_of CHR ''=''
      then s\<lparr>current := current s + 2,
             tokens := tokens s @ [\<lparr>TokenType = two, Lexeme = [c, rune_of CHR ''=''],
                                   Literal = LitNil, Line = line s\<rparr>]\<rparr>
      else s\<lparr>current := current s + 1,
             tokens := tokens s @ [\<lparr>TokenType = one, Lexeme = [c],
                                   Literal = LitNil, Line = line s\<rparr>]\<rparr>)"
    unfolding scanToken_def adv Option.bind.bind_lunit prod.case
    using m by (auto simp: rune_of_def)
next
  show "scan (runes ''!=<<='') = Some
     ([\<lparr>TokenType = BANG_EQUAL, Lexeme = runes ''!='', Literal = LitNil, Line = 1\<rparr>,
       \<lparr>TokenType = LESS, Lexeme = runes ''<'', Literal = LitNil, Line = 1\<rparr>,
       \<lparr>TokenType = LESS_EQUAL, Lexeme = runes ''<='', Literal = LitNil, Line = 1\<rparr>,
       \<lparr>TokenType = EOF, Lexeme = [], Literal = LitNil, Line = 1\<rparr>],
      \<lparr>hadError = False, reports = []\<rparr>)"
    by (simp add: eval_defs)
qed

theorem operator_lookahead_witness:
  "scanToken (NewScanner (runes ''<='') \<lparr>hadError = False, reports = []\<rparr>) =
     Some \<lparr>source = runes ''<='',
            tokens = [\<lparr>TokenType = LESS_EQUAL, Lexeme = runes ''<='', Literal = LitNil, Line = 1\<rparr>],
            start = 0, current = 2, line = 1, lox = \<lparr>hadError = False, reports = []\<rparr>\<rparr> \<and>
   scanToken (NewScanner (runes ''<<'') \<lparr>hadError = False, reports = []\<rparr>) =
     Some \<lparr>source = runes ''<<'',
            tokens = [\<lparr>TokenType = LESS, Lexeme = runes ''<'', Literal = LitNil, Line = 1\<rparr>],
            start = 0, current = 1, line = 1, lox = \<lparr>hadError = False, reports = []\<rparr>\<rparr>"
  using operator_lookahead[of "rune_of CHR ''<''" LESS LESS_EQUAL
      "NewScanner (runes ''<='') \<lparr>hadError = False, reports = []\<rparr>" "runes ''=''"]
    operator_lookahead[of "rune_of CHR ''<''" LESS LESS_EQUAL
      "NewScanner (runes ''<<'') \<lparr>hadError = False, reports = []\<rparr>" "runes ''<''"]
  by (simp add: NewScanner_def rest_def runes_def rune_of_def)

section \<open>No read outside the source\<close>

text \<open>
  Claim C9. Every read of the source during \<^verbatim>\<open>ScanTokens\<close> is in bounds. In the model
  \<^verbatim>\<open>advance\<close> panics exactly when \<open>current\<close> is not below the length of the source, and
  a slice panics when its bounds are out of range; \<^verbatim>\<open>ScanTokens\<close> on a scanner whose
  \<open>current\<close> is within the source (a new scanner in particular) never panics, so no call
  of \<^verbatim>\<open>advance\<close> was out of bounds. \<^verbatim>\<open>peek\<close> and \<^verbatim>\<open>peekNext\<close> return the zero rune at
  the end instead of reading.
\<close>

theorem reads_in_bounds:
  "(current s \<le> length (source s) \<longrightarrow> (\<exists>ts s'. ScanTokens s = Some (ts, s'))) \<and>
   (\<exists>ts s'. ScanTokens (NewScanner src l) = Some (ts, s')) \<and>
   (advance s = None \<longleftrightarrow> length (source s) \<le> current s) \<and>
   (isAtEnd s \<longrightarrow> peek s = 0) \<and>
   (length (source s) \<le> current s + 1 \<longrightarrow> peekNext s = 0)"
proof -
  have a: "\<exists>ts s'. ScanTokens s = Some (ts, s')" if "current s \<le> length (source s)" for s
  proof -
    from ScanTokens_loop_inv[OF that] obtain s' where "ScanTokens_loop s = Some s'" by blast
    then show ?thesis by (simp add: ScanTokens_def Let_def)
  qed
  have "current (NewScanner src l) \<le> length (source (NewScanner src l))"
    by (simp add: NewScanner_def)
  from a[OF this] a[of s] show ?thesis
    by (simp add: advance_def peek_def peekNext_def isAtEnd_def)
qed

theorem reads_in_bounds_witness:
  "(\<exists>ts s'. ScanTokens \<lparr>source = runes ''a.b'', tokens = [], start = 0, current = 3,
        line = 1, lox = \<lparr>hadError = False, reports = []\<rparr>\<rparr> = Some (ts, s')) \<and>
   peek \<lparr>source = runes ''a.b'', tokens = [], start = 0, current = 3,
        line = 1, lox = \<lparr>hadError = False, reports = []\<rparr>\<rparr> = 0 \<and>
   peekNext \<lparr>source = runes ''a.b'', tokens = [], start = 0, current = 2,
        line = 1, lox = \<lparr>hadError = False, reports = []\<rparr>\<rparr> = 0"
  using reads_in_bounds[of "\<lparr>source = runes ''a.b'', tokens = [], start = 0, current = 3,
        line = 1, lox = \<lparr>hadError = False, reports = []\<rparr>\<rparr>"]
    reads_in_bounds[of "\<lparr>source = runes ''a.b'', tokens = [], start = 0, current = 2,
        line = 1, lox = \<lparr>hadError = False, reports = []\<rparr>\<rparr>"]
  by (simp add: runes_def isAtEnd_def)

section \<open>Line numbers\<close>

text \<open>
  Claim C8. For every source, the line numbers of the returned tokens, in the order of
  emission, never decrease.
\<close>

theorem token_lines_sorted:
  "\<exists>ts s'. ScanTokens (NewScanner src l) = Some (ts, s') \<and> sorted (map Line ts)"
proof -
  let ?s = "NewScanner src l"
  have "current ?s \<le> length (source ?s)" by (simp add: NewScanner_def)
  from ScanTokens_loop_inv[OF this] obtain s' ts where
    l: "ScanTokens_loop ?s = Some s'" and t: "tokens s' = ts"
    and a: "list_all (\<lambda>t. TokenType t \<noteq> EOF \<and> line ?s \<le> Line t \<and> Line t \<le> line s') ts"
    and s: "sorted (map Line ts)"
    by (auto simp: NewScanner_def)
  have "sorted (map Line (ts @ [\<lparr>TokenType = EOF, Lexeme = [], Literal = LitNil, Line = line s'\<rparr>]))"
    using a s by (auto simp: sorted_append list_all_iff)
  then show ?thesis
    unfolding ScanTokens_def l Option.bind.bind_lunit
    using t by (simp add: Let_def)
qed

section \<open>Characters outside the grammar\<close>

text \<open>
  The runes for which no case of the \<^verbatim>\<open>switch\<close> in \<^verbatim>\<open>scanToken\<close> applies and which are
  neither digits nor letters: the ones that reach the last \<^verbatim>\<open>else\<close> of the default case.
\<close>

definition unexpected :: "rune \<Rightarrow> bool" where
  "unexpected c \<longleftrightarrow>
     c \<notin> set (runes ''(){},.-+;*!=<>/'') \<and>
     c \<notin> {rune_of CHR '' '', rune_of (CHR 0x0D), rune_of (CHR 0x09),
           rune_of CHR ''\<newline>'', rune_of (CHR 0x22)} \<and>
     \<not> isDigit c \<and> \<not> isAlpha c"

lemma scanToken_unexpected:
  assumes "rest s = c # r" and "unexpected c"
  shows "scanToken s =
     Some (s\<lparr>current := current s + 1,
             lox := reportError (lox s) (line s) ErrUnexpectedCharacter\<rparr>)"
  using assms(2)
  unfolding scanToken_def advance_Cons[OF assms(1)] Option.bind.bind_lunit prod.case
  by (simp add: unexpected_def runes_def)

lemma loop_unexpected:
  "list_all unexpected (rest s) \<Longrightarrow>
   \<exists>s'. ScanTokens_loop s = Some s' \<and> tokens s' = tokens s \<and> line s' = line s \<and>
     hadError (lox s') = (hadError (lox s) \<or> rest s \<noteq> []) \<and>
     reports (lox s') =
       reports (lox s) @ replicate (length (rest s)) (line s, [], ErrUnexpectedCharacter)"
proof (induction "rest s" arbitrary: s)
  case Nil
  then show ?case
    by (subst ScanTokens_loop.simps) (simp add: isAtEnd_rest)
next
  case (Cons c r)
  let ?s0 = "s\<lparr>start := current s\<rparr>"
  let ?s1 = "?s0\<lparr>current := current ?s0 + 1,
                lox := reportError (lox ?s0) (line ?s0) ErrUnexpectedCharacter\<rparr>"
  from Cons(2)[symmetric] have r: "rest s = c # r" .
  with Cons(3) have u: "unexpected c" and all: "list_all unexpected r" by simp_all
  have r0: "rest ?s0 = c # r" using r by simp
  have st: "scanToken ?s0 = Some ?s1" by (rule scanToken_unexpected[OF r0 u])
  have r1: "rest ?s1 = r" using rest_advance[OF r0] by simp
  from Cons(1)[of ?s1] r1 all obtain s' where
    IH: "ScanTokens_loop ?s1 = Some s'" "tokens s' = tokens ?s1" "line s' = line ?s1"
      "hadError (lox s') = (hadError (lox ?s1) \<or> rest ?s1 \<noteq> [])"
      "reports (lox s') = reports (lox ?s1) @
         replicate (length (rest ?s1)) (line ?s1, [], ErrUnexpectedCharacter)"
    by auto
  have "ScanTokens_loop s = Some s'"
    using r st IH(1) by (simp add: ScanTokens_loop.simps[of s] isAtEnd_rest)
  moreover have "reports (lox s') =
      reports (lox s) @ replicate (length (rest s)) (line s, [], ErrUnexpectedCharacter)"
    using IH(5) r r1 by (simp add: reportError_def report_def replicate_app_Cons_same)
  moreover have "hadError (lox s')" using IH(4) by (simp add: reportError_def report_def)
  ultimately show ?case using IH(2,3) r by simp
qed

text \<open>
  Claim C10. Each lexically invalid character is reported on its own: \<^verbatim>\<open>scanToken\<close> at
  such a character consumes it alone, emits no token and calls \<^verbatim>\<open>reportError\<close> once
  with \<^verbatim>\<open>ErrUnexpectedCharacter\<close>; a source made of \<open>n\<close> such characters gives \<open>n\<close> reports,
  all of \<^verbatim>\<open>ErrUnexpectedCharacter\<close>, and the EOF token alone. The character \<^verbatim>\<open>@\<close> and
  the letters outside ASCII (the code points from U+0080 on) are such characters.
\<close>

theorem unexpected_characters_reported:
  "(rest s = c # r \<and> unexpected c \<longrightarrow>
      scanToken s =
        Some (s\<lparr>current := current s + 1,
                lox := reportError (lox s) (line s) ErrUnexpectedCharacter\<rparr>)) \<and>
   (list_all unexpected src \<longrightarrow>
      scan src =
        Some ([\<lparr>TokenType = EOF, Lexeme = [], Literal = LitNil, Line = 1\<rparr>],
              \<lparr>hadError = (src \<noteq> []),
               reports = replicate (length src) (1, [], ErrUnexpectedCharacter)\<rparr>)) \<and>
   unexpected (rune_of CHR ''@'') \<and> (128 \<le> c \<longrightarrow> unexpected c)"
proof (intro conjI impI)
  assume "rest s = c # r \<and> unexpected c"
  then show "scanToken s =
        Some (s\<lparr>current := current s + 1,
                lox := reportError (lox s) (line s) ErrUnexpectedCharacter\<rparr>)"
    using scanToken_unexpected by blast
next
  assume a: "list_all unexpected src"
  let ?s = "NewScanner src \<lparr>hadError = False, reports = []\<rparr>"
  have r: "rest ?s = src" by (simp add: rest_def NewScanner_def)
  from loop_unexpected[of ?s] a r obtain s' where
    "ScanTokens_loop ?s = Some s'" "tokens s' = []" "line s' = 1"
    "hadError (lox s') = (src \<noteq> [])"
    "reports (lox s') = replicate (length src) (1, [], ErrUnexpectedCharacter)"
    by (auto simp: NewScanner_def)
  then show "scan src =
        Some ([\<lparr>TokenType = EOF, Lexeme = [], Literal = LitNil, Line = 1\<rparr>],
              \<lparr>hadError = (src \<noteq> []),
               reports = replicate (length src) (1, [], ErrUnexpectedCharacter)\<rparr>)"
    by (simp add: scan_def ScanTokens_def Let_def)
next
  show "unexpected (rune_of CHR ''@'')"
    by (simp add: unexpected_def runes_def rune_of_def isDigit_def isAlpha_def)
next
  assume "128 \<le> c"
  then show "unexpected c"
    by (auto simp add: unexpected_def runes_def rune_of_def isDigit_def isAlpha_def)
qed

theorem unexpected_characters_reported_witness:
  "scanToken (NewScanner (runes ''@@@'') \<lparr>hadError = False, reports = []\<rparr>) =
     Some \<lparr>source = runes ''@@@'', tokens = [], start = 0, current = 1, line = 1,
            lox = \<lparr>hadError = True, reports = [(1, [], ErrUnexpectedCharacter)]\<rparr>\<rparr> \<and>
   scan [64, 233, 64] =
     Some ([\<lparr>TokenType = EOF, Lexeme = [], Literal = LitNil, Line = 1\<rparr>],
           \<lparr>hadError = True,
            reports = [(1, [], ErrUnexpectedCharacter), (1, [], ErrUnexpectedCharacter),
                       (1, [], ErrUnexpectedCharacter)]\<rparr>) \<and>
   unexpected 233"
  using unexpected_characters_reported[of
      "NewScanner (runes ''@@@'') \<lparr>hadError = False, reports = []\<rparr>"
      "rune_of CHR ''@''" "runes ''@@''" "[64, 233, 64]"]
    unexpected_characters_reported[of
      "NewScanner (runes ''@@@'') \<lparr>hadError = False, reports = []\<rparr>"
      "233" "runes ''@@''" "[64, 233, 64]"]
  by (simp add: NewScanner_def rest_def runes_def rune_of_def reportError_def report_def
      unexpected_def isDigit_def isAlpha_def)

section \<open>String literals, closed and unterminated\<close>

lemma scanToken_quote:
  "rest s = rune_of (CHR 0x22) # r \<Longrightarrow> scanToken s = string (s\<lparr>current := Suc (current s)\<rparr>)"
  unfolding scanToken_def
  by (simp add: advance_Cons rune_of_def)

lemma str_body_closed:
  "rune_of (CHR 0x22) \<notin> set a \<Longrightarrow> str_body (a @ rune_of (CHR 0x22) # b) = a"
  by (induction a) (auto simp: str_body_def)

lemma str_body_open: "rune_of (CHR 0x22) \<notin> set a \<Longrightarrow> str_body a = a"
  by (induction a) (auto simp: str_body_def)

lemma scanToken_string_open:
  assumes st: "start s = current s" and r: "rest s = rune_of (CHR 0x22) # a"
    and a: "rune_of (CHR 0x22) \<notin> set a"
  shows "scanToken s =
     Some (s\<lparr>current := length (source s), line := line s + newlines a,
             lox := reportError (lox s) (line s + newlines a) ErrUnterminatedString\<rparr>)"
proof -
  let ?s1 = "s\<lparr>current := Suc (current s)\<rparr>"
  have r1: "rest ?s1 = a" by (rule rest_advance[OF r])
  have i1: "inb ?s1" by (rule inb_Suc[OF inb_fresh[OF st r] r])
  have lt: "start ?s1 < current ?s1" using st by simp
  have len: "Suc (current s + length a) = length (source s)"
    using inb_len[OF i1] r1 by simp
  show ?thesis
    unfolding scanToken_quote[OF r] string_eq[OF i1 lt] r1 str_body_open[OF a]
    using len by (simp add: Let_def)
qed

lemma scanToken_string_closed:
  assumes st: "start s = current s"
    and r: "rest s = rune_of (CHR 0x22) # a @ rune_of (CHR 0x22) # b"
    and a: "rune_of (CHR 0x22) \<notin> set a"
  shows "scanToken s =
     Some (s\<lparr>current := current s + length a + 2, line := line s + newlines a,
             tokens := tokens s @
               [\<lparr>TokenType = STRING, Lexeme = rune_of (CHR 0x22) # a @ [rune_of (CHR 0x22)],
                 Literal = LitString a, Line = line s + newlines a\<rparr>]\<rparr>)"
proof -
  let ?q = "rune_of (CHR 0x22)"
  let ?s1 = "s\<lparr>current := Suc (current s)\<rparr>"
  have r1: "rest ?s1 = a @ ?q # b" by (rule rest_advance[OF r])
  have i1: "inb ?s1" by (rule inb_Suc[OF inb_fresh[OF st r] r])
  have lt: "start ?s1 < current ?s1" using st by simp
  have lx: "lexeme (s\<lparr>current := current s + length (?q # a @ [?q])\<rparr>) = ?q # a @ [?q]"
    by (rule lexeme_fresh[OF st, of _ b]) (simp add: r)
  have d: "drop (Suc (current s)) (source s) = a @ ?q # b"
    using rest_Cons(3)[OF r] .
  show ?thesis
    unfolding scanToken_quote[OF r] string_eq[OF i1 lt] r1 str_body_closed[OF a]
    using lx d st by (simp add: Let_def lexeme_def)
qed

text \<open>
  Claim C2. Where a string literal is opened by a double quote and the source ends before
  a closing one, no STRING token is emitted, \<^verbatim>\<open>reportError\<close> is called exactly once, with
  \<^verbatim>\<open>ErrUnterminatedString\<close> at the line reached, and \<^verbatim>\<open>ScanTokens\<close> still returns: the
  tokens emitted before, followed by EOF. The scanner \<open>s\<close> is any scanner about to start a
  lexeme at the quote.
\<close>

theorem unterminated_string:
  "(rest s = rune_of (CHR 0x22) # a \<and> rune_of (CHR 0x22) \<notin> set a \<longrightarrow>
      ScanTokens s =
        Some (tokens s @
                [\<lparr>TokenType = EOF, Lexeme = [], Literal = LitNil, Line = line s + newlines a\<rparr>],
              s\<lparr>start := current s, current := length (source s),
                line := line s + newlines a,
                lox := reportError (lox s) (line s + newlines a) ErrUnterminatedString,
                tokens := tokens s @
                  [\<lparr>TokenType = EOF, Lexeme = [], Literal = LitNil,
                    Line = line s + newlines a\<rparr>]\<rparr>)) \<and>
   scan (rune_of (CHR 0x22) # runes ''hi'') =
     Some ([\<lparr>TokenType = EOF, Lexeme = [], Literal = LitNil, Line = 1\<rparr>],
           \<lparr>hadError = True, reports = [(1, [], ErrUnterminatedString)]\<rparr>)"
proof -
  have gen: "ScanTokens s =
        Some (tokens s @
                [\<lparr>TokenType = EOF, Lexeme = [], Literal = LitNil, Line = line s + newlines a\<rparr>],
              s\<lparr>start := current s, current := length (source s),
                line := line s + newlines a,
                lox := reportError (lox s) (line s + newlines a) ErrUnterminatedString,
                tokens := tokens s @
                  [\<lparr>TokenType = EOF, Lexeme = [], Literal = LitNil,
                    Line = line s + newlines a\<rparr>]\<rparr>)"
    if r: "rest s = rune_of (CHR 0x22) # a" and a: "rune_of (CHR 0x22) \<notin> set a" for s a
  proof -
    let ?s0 = "s\<lparr>start := current s\<rparr>"
    let ?s1 = "?s0\<lparr>current := length (source ?s0), line := line ?s0 + newlines a,
        lox := reportError (lox ?s0) (line ?s0 + newlines a) ErrUnterminatedString\<rparr>"
    have st: "scanToken ?s0 = Some ?s1"
      by (rule scanToken_string_open[OF _ _ a]) (simp_all add: r)
    have e: "ScanTokens_loop ?s1 = Some ?s1"
      by (subst ScanTokens_loop.simps) (simp add: isAtEnd_def)
    have "ScanTokens_loop s = Some ?s1"
      using r st e by (simp add: ScanTokens_loop.simps[of s] isAtEnd_rest)
    then show ?thesis
      by (simp add: ScanTokens_def Let_def)
  qed
  have ex: "scan (rune_of (CHR 0x22) # runes ''hi'') =
     Some ([\<lparr>TokenType = EOF, Lexeme = [], Literal = LitNil, Line = 1\<rparr>],
           \<lparr>hadError = True, reports = [(1, [], ErrUnterminatedString)]\<rparr>)"
    unfolding scan_def
    by (subst gen[of _ "runes ''hi''"])
       (simp_all add: NewScanner_def rest_def runes_def rune_of_def reportError_def report_def)
  from gen ex show ?thesis by blast
qed

theorem unterminated_string_witness:
  "ScanTokens \<lparr>source = runes ''x = '' @ [34, 104, 10, 105], tokens = [], start = 0,
       current = 4, line = 1, lox = \<lparr>hadError = False, reports = []\<rparr>\<rparr> =
     Some ([\<lparr>TokenType = EOF, Lexeme = [], Literal = LitNil, Line = 2\<rparr>],
       \<lparr>source = runes ''x = '' @ [34, 104, 10, 105],
        tokens = [\<lparr>TokenType = EOF, Lexeme = [], Literal = LitNil, Line = 2\<rparr>], start = 4,
        current = 8, line = 2,
        lox = \<lparr>hadError = True, reports = [(2, [], ErrUnterminatedString)]\<rparr>\<rparr>)"
  using unterminated_string[of
      "\<lparr>source = runes ''x = '' @ [34, 104, 10, 105], tokens = [], start = 0,
       current = 4, line = 1, lox = \<lparr>hadError = False, reports = []\<rparr>\<rparr>" "[104, 10, 105]"]
  by (simp add: rest_def runes_def rune_of_def reportError_def report_def)

text \<open>
  Claim C5. For a string literal closed by a double quote, the STRING token's literal is
  exactly the runes strictly between the two quotes, whatever they are (a backslash is a
  rune like any other), its lexeme is that text with both quotes, and its line is the
  line of the closing quote: the line at the opening quote plus the number of newlines
  inside the string.
\<close>

theorem closed_string_literal:
  "(start s = current s \<and> rest s = rune_of (CHR 0x22) # a @ rune_of (CHR 0x22) # b \<and>
    rune_of (CHR 0x22) \<notin> set a \<longrightarrow>
      scanToken s =
        Some (s\<lparr>current := current s + length a + 2, line := line s + newlines a,
                tokens := tokens s @
                  [\<lparr>TokenType = STRING,
                    Lexeme = rune_of (CHR 0x22) # a @ [rune_of (CHR 0x22)],
                    Literal = LitString a, Line = line s + newlines a\<rparr>]\<rparr>)) \<and>
   scan ([34] @ runes ''a'' @ [92] @ runes ''n'' @ [10] @ runes ''b'' @ [34]) =
     Some ([\<lparr>TokenType = STRING,
             Lexeme = [34] @ runes ''a'' @ [92] @ runes ''n'' @ [10] @ runes ''b'' @ [34],
             Literal = LitString (runes ''a'' @ [92] @ runes ''n'' @ [10] @ runes ''b''),
             Line = 2\<rparr>,
            \<lparr>TokenType = EOF, Lexeme = [], Literal = LitNil, Line = 2\<rparr>],
           \<lparr>hadError = False, reports = []\<rparr>)"
proof -
  have "scan ([34] @ runes ''a'' @ [92] @ runes ''n'' @ [10] @ runes ''b'' @ [34]) =
     Some ([\<lparr>TokenType = STRING,
             Lexeme = [34] @ runes ''a'' @ [92] @ runes ''n'' @ [10] @ runes ''b'' @ [34],
             Literal = LitString (runes ''a'' @ [92] @ runes ''n'' @ [10] @ runes ''b''),
             Line = 2\<rparr>,
            \<lparr>TokenType = EOF, Lexeme = [], Literal = LitNil, Line = 2\<rparr>],
           \<lparr>hadError = False, reports = []\<rparr>)"
    by (simp add: eval_defs)
  with scanToken_string_closed[of s a b] show ?thesis by blast
qed

theorem closed_string_literal_witness:
  "scanToken \<lparr>source = runes ''x='' @ [34, 92, 10, 34, 59], tokens = [], start = 2,
       current = 2, line = 1, lox = \<lparr>hadError = False, reports = []\<rparr>\<rparr> =
     Some \<lparr>source = runes ''x='' @ [34, 92, 10, 34, 59],
        tokens = [\<lparr>TokenType = STRING, Lexeme = [34, 92, 10, 34],
                   Literal = LitString [92, 10], Line = 2\<rparr>],
        start = 2, current = 6, line = 2, lox = \<lparr>hadError = False, reports = []\<rparr>\<rparr>"
  using closed_string_literal[of
      "\<lparr>source = runes ''x='' @ [34, 92, 10, 34, 59], tokens = [], start = 2,
       current = 2, line = 1, lox = \<lparr>hadError = False, reports = []\<rparr>\<rparr>" "[92, 10]" "[59]"]
  by (simp add: rest_def runes_def rune_of_def)

section \<open>Block comments\<close>

lemma find_close_first:
  "(\<forall>i<length a. \<not> ((a @ rune_of CHR ''*'' # rune_of CHR ''/'' # b) ! i = rune_of CHR ''*'' \<and>
       (a @ rune_of CHR ''*'' # rune_of CHR ''/'' # b) ! Suc i = rune_of CHR ''/'')) \<Longrightarrow>
   find_close (a @ rune_of CHR ''*'' # rune_of CHR ''/'' # b) = Some (length a)"
proof (induction a)
  case Nil
  then show ?case by simp
next
  case (Cons x a)
  let ?r = "a @ rune_of CHR ''*'' # rune_of CHR ''/'' # b"
  from Cons.prems have h0: "\<not> (x = rune_of CHR ''*'' \<and> ?r ! 0 = rune_of CHR ''/'')"
    by (auto dest: spec[of _ 0])
  have "\<forall>i<length a. \<not> (?r ! i = rune_of CHR ''*'' \<and> ?r ! Suc i = rune_of CHR ''/'')"
  proof (intro allI impI)
    fix i assume "i < length a"
    with Cons.prems[rule_format, of "Suc i"]
    show "\<not> (?r ! i = rune_of CHR ''*'' \<and> ?r ! Suc i = rune_of CHR ''/'')" by simp
  qed
  from Cons.IH[OF this] have IH: "find_close ?r = Some (length a)" .
  obtain y r' where yr: "?r = y # r'" by (cases ?r) auto
  with h0 have "\<not> (x = rune_of CHR ''*'' \<and> y = rune_of CHR ''/'')" by simp
  then have "find_close (x # y # r') = map_option Suc (find_close (y # r'))" by auto
  with IH yr show ?case by simp
qed

lemma find_close_none:
  "(\<forall>i. Suc i < length r \<longrightarrow> \<not> (r ! i = rune_of CHR ''*'' \<and> r ! Suc i = rune_of CHR ''/'')) \<Longrightarrow>
   find_close r = None"
proof (induction r rule: find_close.induct)
  case (1 x y r)
  from "1.prems"[rule_format, of 0]
  have n: "\<not> (x = rune_of CHR ''*'' \<and> y = rune_of CHR ''/'')" by simp
  have "\<forall>i. Suc i < length (y # r) \<longrightarrow>
      \<not> ((y # r) ! i = rune_of CHR ''*'' \<and> (y # r) ! Suc i = rune_of CHR ''/'')"
  proof (intro allI impI)
    fix i assume "Suc i < length (y # r)"
    with "1.prems"[rule_format, of "Suc i"]
    show "\<not> ((y # r) ! i = rune_of CHR ''*'' \<and> (y # r) ! Suc i = rune_of CHR ''/'')" by simp
  qed
  with "1.IH" n have "find_close (y # r) = None" by blast
  with n show ?case by auto
qed simp_all

lemma scanToken_block:
  assumes "rest s = rune_of CHR ''/'' # rune_of CHR ''*'' # r"
  shows "scanToken s = blockComment (s\<lparr>current := current s + 2\<rparr>)"
    and "rest (s\<lparr>current := current s + 2\<rparr>) = r"
    and "current s + 2 + length r = length (source s)"
proof -
  let ?s1 = "s\<lparr>current := Suc (current s)\<rparr>"
  have r1: "rest ?s1 = rune_of CHR ''*'' # r" by (rule rest_advance[OF assms])
  show "scanToken s = blockComment (s\<lparr>current := current s + 2\<rparr>)"
    unfolding scanToken_def advance_Cons[OF assms] Option.bind.bind_lunit prod.case
    by (simp add: match_rest r1 rune_of_def)
  show "rest (s\<lparr>current := current s + 2\<rparr>) = r"
    using rest_advance[OF r1] by simp
  show "current s + 2 + length r = length (source s)"
    using rest_length[of s] rest_Cons(1)[OF assms] assms by simp
qed

text \<open>
  Claim C4. A block comment opened by \<^verbatim>\<open>/*\<close> is closed by the first \<^verbatim>\<open>*/\<close> after the
  opener, whatever stands in between (an inner \<^verbatim>\<open>/*\<close> included): \<^verbatim>\<open>scanToken\<close> consumes
  the comment with both delimiters, emits no token, reports nothing and adds the newlines
  inside the comment to the line counter. When no \<^verbatim>\<open>*/\<close> follows, it consumes the rest of
  the source, emits no token and reports \<^verbatim>\<open>ErrUnterminatedBlockComment\<close> once, at the
  last line reached. The source of the specification's example gives NUMBER 2 at line 2,
  then EOF, and no report.
\<close>

theorem block_comment_first_close:
  "(rest s = rune_of CHR ''/'' # rune_of CHR ''*'' # r \<and>
    r = a @ rune_of CHR ''*'' # rune_of CHR ''/'' # b \<and>
    (\<forall>i<length a. \<not> (r ! i = rune_of CHR ''*'' \<and> r ! Suc i = rune_of CHR ''/'')) \<longrightarrow>
      scanToken s =
        Some (s\<lparr>current := current s + length a + 4, line := line s + newlines a\<rparr>)) \<and>
   (rest s = rune_of CHR ''/'' # rune_of CHR ''*'' # r \<and>
    (\<forall>i. Suc i < length r \<longrightarrow>
       \<not> (r ! i = rune_of CHR ''*'' \<and> r ! Suc i = rune_of CHR ''/'')) \<longrightarrow>
      scanToken s =
        Some (s\<lparr>current := length (source s), line := line s + newlines r,
                lox := reportError (lox s) (line s + newlines r)
                         ErrUnterminatedBlockComment\<rparr>)) \<and>
   scan (runes ''/* a\<newline>b */ 2'') =
     Some ([\<lparr>TokenType = NUMBER, Lexeme = runes ''2'', Literal = LitFloat 2, Line = 2\<rparr>,
            \<lparr>TokenType = EOF, Lexeme = [], Literal = LitNil, Line = 2\<rparr>],
           \<lparr>hadError = False, reports = []\<rparr>) \<and>
   scan (runes ''/* /* */ +'') =
     Some ([\<lparr>TokenType = PLUS, Lexeme = runes ''+'', Literal = LitNil, Line = 1\<rparr>,
            \<lparr>TokenType = EOF, Lexeme = [], Literal = LitNil, Line = 1\<rparr>],
           \<lparr>hadError = False, reports = []\<rparr>)"
proof (intro conjI impI)
  assume h: "rest s = rune_of CHR ''/'' # rune_of CHR ''*'' # r \<and>
    r = a @ rune_of CHR ''*'' # rune_of CHR ''/'' # b \<and>
    (\<forall>i<length a. \<not> (r ! i = rune_of CHR ''*'' \<and> r ! Suc i = rune_of CHR ''/''))"
  then have fc: "find_close r = Some (length a)"
    using find_close_first[of a b] by blast
  from h have tk: "take (length a) r = a" by simp
  from h have rs: "rest s = rune_of CHR ''/'' # rune_of CHR ''*'' # r" by simp
  show "scanToken s =
        Some (s\<lparr>current := current s + length a + 4, line := line s + newlines a\<rparr>)"
    unfolding scanToken_block(1)[OF rs] blockComment_eq scanToken_block(2)[OF rs] fc
    by (simp add: tk)
next
  assume h: "rest s = rune_of CHR ''/'' # rune_of CHR ''*'' # r \<and>
    (\<forall>i. Suc i < length r \<longrightarrow>
       \<not> (r ! i = rune_of CHR ''*'' \<and> r ! Suc i = rune_of CHR ''/''))"
  then have fc: "find_close r = None"
    using find_close_none[of r] by blast
  from h have rs: "rest s = rune_of CHR ''/'' # rune_of CHR ''*'' # r" by simp
  show "scanToken s =
        Some (s\<lparr>current := length (source s), line := line s + newlines r,
                lox := reportError (lox s) (line s + newlines r)
                         ErrUnterminatedBlockComment\<rparr>)"
    unfolding scanToken_block(1)[OF rs] blockComment_eq scanToken_block(2)[OF rs] fc
    using scanToken_block(3)[OF rs] by (simp add: ac_simps)
next
  have pf: "ParseFloat [50] = Inr 2"
    by (simp add: ParseFloat_def float64_round_def decimal_value_def digit_value_def
        round_half_even_def binary_exponent_def isDigit_def rune_of_def bitlen_def
        floorlog_def Let_def)
  show "scan (runes ''/* a\<newline>b */ 2'') =
     Some ([\<lparr>TokenType = NUMBER, Lexeme = runes ''2'', Literal = LitFloat 2, Line = 2\<rparr>,
            \<lparr>TokenType = EOF, Lexeme = [], Literal = LitNil, Line = 2\<rparr>],
           \<lparr>hadError = False, reports = []\<rparr>)"
    by (simp add: eval_defs pf)
next
  show "scan (runes ''/* /* */ +'') =
     Some ([\<lparr>TokenType = PLUS, Lexeme = runes ''+'', Literal = LitNil, Line = 1\<rparr>,
            \<lparr>TokenType = EOF, Lexeme = [], Literal = LitNil, Line = 1\<rparr>],
           \<lparr>hadError = False, reports = []\<rparr>)"
    by (simp add: eval_defs)
qed

theorem block_comment_first_close_witness:
  "scanToken (NewScanner (runes ''/*/*\<newline>*/*/'') \<lparr>hadError = False, reports = []\<rparr>) =
     Some \<lparr>source = runes ''/*/*\<newline>*/*/'', tokens = [], start = 0, current = 7, line = 2,
            lox = \<lparr>hadError = False, reports = []\<rparr>\<rparr> \<and>
   scanToken (NewScanner (runes ''/*/\<newline>*'') \<lparr>hadError = False, reports = []\<rparr>) =
     Some \<lparr>source = runes ''/*/\<newline>*'', tokens = [], start = 0, current = 5, line = 2,
            lox = \<lparr>hadError = True, reports = [(2, [], ErrUnterminatedBlockComment)]\<rparr>\<rparr>"
proof -
  have a: "\<forall>i<length (runes ''/*\<newline>''). \<not> (runes ''/*\<newline>*/*/'' ! i = rune_of CHR ''*'' \<and>
      runes ''/*\<newline>*/*/'' ! Suc i = rune_of CHR ''/'')"
    by (simp add: runes_def rune_of_def less_Suc_eq)
  have b: "\<forall>i. Suc i < length (runes ''/\<newline>*'') \<longrightarrow> \<not> (runes ''/\<newline>*'' ! i = rune_of CHR ''*'' \<and>
      runes ''/\<newline>*'' ! Suc i = rune_of CHR ''/'')"
    by (simp add: runes_def rune_of_def less_Suc_eq)
  show ?thesis
    using a b block_comment_first_close[of
        "NewScanner (runes ''/*/*\<newline>*/*/'') \<lparr>hadError = False, reports = []\<rparr>"
        "runes ''/*\<newline>*/*/''" "runes ''/*\<newline>''" "runes ''*/''"]
      block_comment_first_close[of
        "NewScanner (runes ''/*/\<newline>*'') \<lparr>hadError = False, reports = []\<rparr>"
        "runes ''/\<newline>*''" "[]" "[]"]
    by (simp add: NewScanner_def rest_def runes_def rune_of_def reportError_def report_def)
qed

section \<open>Number literals\<close>

lemma isDigit_not_dot [simp]: "\<not> isDigit (rune_of CHR ''.'')"
  by (simp add: isDigit_def rune_of_def)

lemma takeWhile_digits:
  "list_all isDigit ip \<Longrightarrow> r = [] \<or> \<not> isDigit (hd r) \<Longrightarrow>
   takeWhile isDigit (ip @ r) = ip \<and> dropWhile isDigit (ip @ r) = r"
  by (induction ip) (cases r; auto)+

lemma number_len_int:
  assumes "list_all isDigit ip" and "r = [] \<or> \<not> isDigit (hd r)"
    and "\<not> (\<exists>y r2. r = rune_of CHR ''.'' # y # r2 \<and> isDigit y)"
  shows "number_len (ip @ r) = length ip"
  using takeWhile_digits[OF assms(1,2)] assms(3)
  by (auto simp: number_len_def Let_def split: list.splits)

lemma number_len_frac:
  assumes "list_all isDigit ip" and "list_all isDigit fp" and "fp \<noteq> []"
    and "r = [] \<or> \<not> isDigit (hd r)"
  shows "number_len (ip @ rune_of CHR ''.'' # fp @ r) = length ip + 1 + length fp"
proof -
  obtain y fp' where fp: "fp = y # fp'" using assms(3) by (cases fp) auto
  have a: "takeWhile isDigit (ip @ rune_of CHR ''.'' # fp @ r) = ip"
      "dropWhile isDigit (ip @ rune_of CHR ''.'' # fp @ r) = rune_of CHR ''.'' # fp @ r"
    using takeWhile_digits[OF assms(1), of "rune_of CHR ''.'' # fp @ r"] by simp_all
  have b: "takeWhile isDigit (fp @ r) = fp"
    using takeWhile_digits[OF assms(2,4)] by simp
  show ?thesis
    using assms(2) b a unfolding fp number_len_def Let_def by simp
qed

lemma scanToken_digit:
  "rest s = d # r \<Longrightarrow> isDigit d \<Longrightarrow> scanToken s = number (s\<lparr>current := Suc (current s)\<rparr>)"
  unfolding scanToken_def
  by (auto simp add: advance_Cons isDigit_def rune_of_def)

lemma scanToken_number:
  assumes st: "start s = current s" and r: "rest s = d # r" and d: "isDigit d"
  shows "scanToken s = Some
     (let text = d # take (number_len r) r;
          s2 = s\<lparr>current := current s + length text\<rparr>
      in case ParseFloat text of
           Inl e \<Rightarrow> s2\<lparr>lox := reportError (lox s) (line s) ErrInvalidNumberLiteral\<rparr>
         | Inr v \<Rightarrow> s2\<lparr>tokens := tokens s @
             [\<lparr>TokenType = NUMBER, Lexeme = text, Literal = LitFloat v, Line = line s\<rparr>]\<rparr>)"
proof -
  let ?s1 = "s\<lparr>current := Suc (current s)\<rparr>"
  let ?text = "d # take (number_len r) r"
  have r1: "rest ?s1 = r" by (rule rest_advance[OF r])
  have i1: "inb ?s1" by (rule inb_Suc[OF inb_fresh[OF st r] r])
  have len: "length ?text = Suc (number_len r)"
    using number_len_le[of r] by simp
  have "rest s = ?text @ drop (number_len r) r" using r by simp
  from lexeme_fresh[OF st this]
  have lx: "lexeme (s\<lparr>current := Suc (current s + number_len r)\<rparr>) = ?text"
    unfolding len by simp
  show ?thesis
    unfolding scanToken_digit[OF r d] number_eq[OF i1] r1 Let_def len
    using lx by (simp split: sum.splits)
qed

lemma scanToken_dot:
  assumes st: "start s = current s" and r: "rest s = rune_of CHR ''.'' # r"
  shows "scanToken s =
     Some (s\<lparr>current := current s + 1,
             tokens := tokens s @
               [\<lparr>TokenType = DOT, Lexeme = [rune_of CHR ''.''], Literal = LitNil,
                 Line = line s\<rparr>]\<rparr>)"
proof -
  let ?s1 = "s\<lparr>current := Suc (current s)\<rparr>"
  have i1: "inb ?s1" by (rule inb_Suc[OF inb_fresh[OF st r] r])
  have lx1: "lexeme ?s1 = [rune_of CHR ''.'']"
    using lexeme_fresh[OF st, of "[rune_of CHR ''.'']" r] r by simp
  show ?thesis
    unfolding scanToken_def advance_Cons[OF r] Option.bind.bind_lunit prod.case
    using i1 lx1 by (simp add: rune_of_def addToken_def addTokenWithLiteral_eq)
qed

text \<open>
  Claim C3. A number literal is one or more decimal digits, optionally followed by a dot
  and one or more digits. \<^verbatim>\<open>scanToken\<close> at a digit consumes the digits \<open>ip\<close>; it consumes
  a dot after them only when a digit follows the dot, and then the digits \<open>fp\<close> after
  the dot. A dot that no digit follows is left in the input, where the next \<^verbatim>\<open>scanToken\<close>
  emits DOT for it. The NUMBER token's lexeme is the matched text and its literal is what
  \<^verbatim>\<open>ParseFloat\<close> returns for that text. The source \<^verbatim>\<open>1 + 2.5\<close> gives NUMBER 1, PLUS,
  NUMBER 2.5, EOF and no report; \<^verbatim>\<open>1.\<close> gives NUMBER 1, DOT, EOF.
\<close>

theorem number_literal:
  "(start s = current s \<and> rest s = ip @ r \<and> ip \<noteq> [] \<and> list_all isDigit ip \<and>
    (r = [] \<or> \<not> isDigit (hd r)) \<and>
    \<not> (\<exists>y r2. r = rune_of CHR ''.'' # y # r2 \<and> isDigit y) \<longrightarrow>
      scanToken s = Some
        (case ParseFloat ip of
           Inr v \<Rightarrow> s\<lparr>current := current s + length ip,
                     tokens := tokens s @
                       [\<lparr>TokenType = NUMBER, Lexeme = ip, Literal = LitFloat v,
                         Line = line s\<rparr>]\<rparr>
         | Inl e \<Rightarrow> s\<lparr>current := current s + length ip,
                     lox := reportError (lox s) (line s) ErrInvalidNumberLiteral\<rparr>)) \<and>
   (start s = current s \<and> rest s = ip @ rune_of CHR ''.'' # fp @ r \<and>
    ip \<noteq> [] \<and> fp \<noteq> [] \<and> list_all isDigit ip \<and> list_all isDigit fp \<and>
    (r = [] \<or> \<not> isDigit (hd r)) \<longrightarrow>
      scanToken s = Some
        (case ParseFloat (ip @ rune_of CHR ''.'' # fp) of
           Inr v \<Rightarrow> s\<lparr>current := current s + length ip + 1 + length fp,
                     tokens := tokens s @
                       [\<lparr>TokenType = NUMBER, Lexeme = ip @ rune_of CHR ''.'' # fp,
                         Literal = LitFloat v, Line = line s\<rparr>]\<rparr>
         | Inl e \<Rightarrow> s\<lparr>current := current s + length ip + 1 + length fp,
                     lox := reportError (lox s) (line s) ErrInvalidNumberLiteral\<rparr>)) \<and>
   (start s = current s \<and> rest s = rune_of CHR ''.'' # r \<longrightarrow>
      scanToken s =
        Some (s\<lparr>current := current s + 1,
                tokens := tokens s @
                  [\<lparr>TokenType = DOT, Lexeme = [rune_of CHR ''.''], Literal = LitNil,
                    Line = line s\<rparr>]\<rparr>)) \<and>
   scan (runes ''1 + 2.5'') =
     Some ([\<lparr>TokenType = NUMBER, Lexeme = runes ''1'', Literal = LitFloat 1, Line = 1\<rparr>,
            \<lparr>TokenType = PLUS, Lexeme = runes ''+'', Literal = LitNil, Line = 1\<rparr>,
            \<lparr>TokenType = NUMBER, Lexeme = runes ''2.5'', Literal = LitFloat (5 / 2),
              Line = 1\<rparr>,
            \<lparr>TokenType = EOF, Lexeme = [], Literal = LitNil, Line = 1\<rparr>],
           \<lparr>hadError = False, reports = []\<rparr>) \<and>
   scan (runes ''1.'') =
     Some ([\<lparr>TokenType = NUMBER, Lexeme = runes ''1'', Literal = LitFloat 1, Line = 1\<rparr>,
            \<lparr>TokenType = DOT, Lexeme = runes ''.'', Literal = LitNil, Line = 1\<rparr>,
            \<lparr>TokenType = EOF, Lexeme = [], Literal = LitNil, Line = 1\<rparr>],
           \<lparr>hadError = False, reports = []\<rparr>)"
proof (intro conjI impI)
  assume h: "start s = current s \<and> rest s = ip @ r \<and> ip \<noteq> [] \<and> list_all isDigit ip \<and>
    (r = [] \<or> \<not> isDigit (hd r)) \<and>
    \<not> (\<exists>y r2. r = rune_of CHR ''.'' # y # r2 \<and> isDigit y)"
  then obtain d ip' where ip: "ip = d # ip'" by (cases ip) auto
  from h ip have n: "number_len (ip' @ r) = length ip'"
    using number_len_int[of ip' r] by simp
  from h ip have "start s = current s" "rest s = d # ip' @ r" "isDigit d" by simp_all
  from scanToken_number[OF this]
  show "scanToken s = Some
        (case ParseFloat ip of
           Inr v \<Rightarrow> s\<lparr>current := current s + length ip,
                     tokens := tokens s @
                       [\<lparr>TokenType = NUMBER, Lexeme = ip, Literal = LitFloat v,
                         Line = line s\<rparr>]\<rparr>
         | Inl e \<Rightarrow> s\<lparr>current := current s + length ip,
                     lox := reportError (lox s) (line s) ErrInvalidNumberLiteral\<rparr>)"
    by (simp add: n ip Let_def split: sum.splits)
next
  assume h: "start s = current s \<and> rest s = ip @ rune_of CHR ''.'' # fp @ r \<and>
    ip \<noteq> [] \<and> fp \<noteq> [] \<and> list_all isDigit ip \<and> list_all isDigit fp \<and>
    (r = [] \<or> \<not> isDigit (hd r))"
  then obtain d ip' where ip: "ip = d # ip'" by (cases ip) auto
  from h ip have n: "number_len (ip' @ rune_of CHR ''.'' # fp @ r) =
      length ip' + 1 + length fp"
    using number_len_frac[of ip' fp r] by simp
  have tk: "take (length ip' + 1 + length fp) (ip' @ rune_of CHR ''.'' # fp @ r) =
      ip' @ rune_of CHR ''.'' # fp"
    by simp
  from h ip have "start s = current s" "rest s = d # ip' @ rune_of CHR ''.'' # fp @ r"
    "isDigit d" by simp_all
  from scanToken_number[OF this]
  show "scanToken s = Some
        (case ParseFloat (ip @ rune_of CHR ''.'' # fp) of
           Inr v \<Rightarrow> s\<lparr>current := current s + length ip + 1 + length fp,
                     tokens := tokens s @
                       [\<lparr>TokenType = NUMBER, Lexeme = ip @ rune_of CHR ''.'' # fp,
                         Literal = LitFloat v, Line = line s\<rparr>]\<rparr>
         | Inl e \<Rightarrow> s\<lparr>current := current s + length ip + 1 + length fp,
                     lox := reportError (lox s) (line s) ErrInvalidNumberLiteral\<rparr>)"
    unfolding n tk by (simp add: ip Let_def split: sum.splits)
next
  assume "start s = current s \<and> rest s = rune_of CHR ''.'' # r"
  then show "scanToken s =
        Some (s\<lparr>current := current s + 1,
                tokens := tokens s @
                  [\<lparr>TokenType = DOT, Lexeme = [rune_of CHR ''.''], Literal = LitNil,
                    Line = line s\<rparr>]\<rparr>)"
    using scanToken_dot by blast
next
  show "scan (runes ''1 + 2.5'') =
     Some ([\<lparr>TokenType = NUMBER, Lexeme = runes ''1'', Literal = LitFloat 1, Line = 1\<rparr>,
            \<lparr>TokenType = PLUS, Lexeme = runes ''+'', Literal = LitNil, Line = 1\<rparr>,
            \<lparr>TokenType = NUMBER, Lexeme = runes ''2.5'', Literal = LitFloat (5 / 2),
              Line = 1\<rparr>,
            \<lparr>TokenType = EOF, Lexeme = [], Literal = LitNil, Line = 1\<rparr>],
           \<lparr>hadError = False, reports = []\<rparr>)"
    by code_simp
next
  show "scan (runes ''1.'') =
     Some ([\<lparr>TokenType = NUMBER, Lexeme = runes ''1'', Literal = LitFloat 1, Line = 1\<rparr>,
            \<lparr>TokenType = DOT, Lexeme = runes ''.'', Literal = LitNil, Line = 1\<rparr>,
            \<lparr>TokenType = EOF, Lexeme = [], Literal = LitNil, Line = 1\<rparr>],
           \<lparr>hadError = False, reports = []\<rparr>)"
    by code_simp
qed

theorem number_literal_witness:
  "scanToken (NewScanner (runes ''12.5+'') \<lparr>hadError = False, reports = []\<rparr>) =
     Some \<lparr>source = runes ''12.5+'',
        tokens = [\<lparr>TokenType = NUMBER, Lexeme = runes ''12.5'', Literal = LitFloat (25 / 2),
                   Line = 1\<rparr>],
        start = 0, current = 4, line = 1, lox = \<lparr>hadError = False, reports = []\<rparr>\<rparr> \<and>
   scanToken (NewScanner (runes ''7.x'') \<lparr>hadError = False, reports = []\<rparr>) =
     Some \<lparr>source = runes ''7.x'',
        tokens = [\<lparr>TokenType = NUMBER, Lexeme = runes ''7'', Literal = LitFloat 7, Line = 1\<rparr>],
        start = 0, current = 1, line = 1, lox = \<lparr>hadError = False, reports = []\<rparr>\<rparr> \<and>
   scanToken \<lparr>source = runes ''7.x'', tokens = [], start = 1, current = 1, line = 1,
        lox = \<lparr>hadError = False, reports = []\<rparr>\<rparr> =
     Some \<lparr>source = runes ''7.x'',
        tokens = [\<lparr>TokenType = DOT, Lexeme = runes ''.'', Literal = LitNil, Line = 1\<rparr>],
        start = 1, current = 2, line = 1, lox = \<lparr>hadError = False, reports = []\<rparr>\<rparr>"
proof -
  have p1: "ParseFloat (runes ''12'' @ rune_of CHR ''.'' # runes ''5'') = Inr (25 / 2)"
    by code_simp
  have p2: "ParseFloat (runes ''7'') = Inr 7"
    by code_simp
  show ?thesis
    using number_literal[of "NewScanner (runes ''12.5+'') \<lparr>hadError = False, reports = []\<rparr>"
        "runes ''12''" "runes ''+''" "runes ''5''"]
      number_literal[of "NewScanner (runes ''7.x'') \<lparr>hadError = False, reports = []\<rparr>"
        "runes ''7''" "runes ''.x''" "runes ''5''"]
      number_literal[of "\<lparr>source = runes ''7.x'', tokens = [], start = 1, current = 1, line = 1,
        lox = \<lparr>hadError = False, reports = []\<rparr>\<rparr>" "runes ''7''" "runes ''x''" "runes ''5''"]
    unfolding p1 p2
    by (simp add: NewScanner_def rest_def runes_def rune_of_def isDigit_def)
qed

section \<open>The range of \<^verbatim>\<open>ParseFloat\<close>\<close>

lemma binary_exponent_bounds:
  assumes "0 < q"
  shows "2 powi (binary_exponent q) \<le> q" and "q < 2 powi (binary_exponent q + 1)"
proof -
  show "2 powi (binary_exponent q) \<le> q"
  proof (cases "1 \<le> q")
    case True
    then have pos: "0 < \<lfloor>q\<rfloor>" by linarith
    then have b1: "1 \<le> bitlen \<lfloor>q\<rfloor>" by (simp add: bitlen_alt_def)
    from bitlen_bounds[OF pos] have "2 ^ nat (bitlen \<lfloor>q\<rfloor> - 1) \<le> \<lfloor>q\<rfloor>" by simp
    then have "(2::rat) ^ nat (bitlen \<lfloor>q\<rfloor> - 1) \<le> of_int \<lfloor>q\<rfloor>"
      by (metis of_int_le_iff of_int_numeral of_int_power)
    also have "\<dots> \<le> q" by simp
    finally show ?thesis using True b1 by (simp add: binary_exponent_def power_int_def)
  next
    case False
    let ?m = "\<lceil>1 / q\<rceil> - 1"
    from False assms have "1 < 1 / q" by (simp add: field_simps)
    then have pos: "0 < ?m" by linarith
    from bitlen_bounds[OF pos] have "?m < 2 ^ nat (bitlen ?m)" by simp
    then have "\<lceil>1 / q\<rceil> \<le> 2 ^ nat (bitlen ?m)" by simp
    then have "of_int \<lceil>1 / q\<rceil> \<le> (2::rat) ^ nat (bitlen ?m)"
      by (metis of_int_le_iff of_int_numeral of_int_power)
    moreover have "1 / q \<le> of_int \<lceil>1 / q\<rceil>" by simp
    ultimately have "1 / q \<le> 2 ^ nat (bitlen ?m)" by linarith
    then have "1 / 2 ^ nat (bitlen ?m) \<le> q"
      using assms by (simp add: field_simps)
    moreover have "2 powi (- bitlen ?m) = (1::rat) / 2 ^ nat (bitlen ?m)"
      using bitlen_nonneg[of ?m] by (simp add: power_int_def field_simps)
    ultimately show ?thesis using False by (simp add: binary_exponent_def)
  qed
  show "q < 2 powi (binary_exponent q + 1)"
  proof (cases "1 \<le> q")
    case True
    then have pos: "0 < \<lfloor>q\<rfloor>" by linarith
    then have b1: "1 \<le> bitlen \<lfloor>q\<rfloor>" by (simp add: bitlen_alt_def)
    from bitlen_bounds[OF pos] have "\<lfloor>q\<rfloor> < 2 ^ nat (bitlen \<lfloor>q\<rfloor>)" by simp
    then have "\<lfloor>q\<rfloor> + 1 \<le> 2 ^ nat (bitlen \<lfloor>q\<rfloor>)" by simp
    then have "of_int (\<lfloor>q\<rfloor> + 1) \<le> (2::rat) ^ nat (bitlen \<lfloor>q\<rfloor>)"
      by (metis of_int_le_iff of_int_numeral of_int_power)
    moreover have "q < of_int (\<lfloor>q\<rfloor> + 1)" by linarith
    ultimately have "q < 2 ^ nat (bitlen \<lfloor>q\<rfloor>)" by linarith
    then show ?thesis using True b1 by (simp add: binary_exponent_def power_int_def)
  next
    case False
    let ?m = "\<lceil>1 / q\<rceil> - 1"
    from False assms have "1 < 1 / q" by (simp add: field_simps)
    then have pos: "0 < ?m" by linarith
    then have b1: "1 \<le> bitlen ?m" by (simp add: bitlen_alt_def)
    from bitlen_bounds[OF pos] have "2 ^ nat (bitlen ?m - 1) \<le> ?m" by simp
    then have "(2::rat) ^ nat (bitlen ?m - 1) \<le> of_int ?m"
      by (metis of_int_le_iff of_int_numeral of_int_power)
    moreover have "of_int ?m < 1 / q" by linarith
    ultimately have "2 ^ nat (bitlen ?m - 1) < 1 / q" by linarith
    then have "q < 1 / 2 ^ nat (bitlen ?m - 1)"
      using assms by (simp add: field_simps)
    moreover have "2 powi (- bitlen ?m + 1) = (1::rat) / 2 ^ nat (bitlen ?m - 1)"
      using b1 by (simp add: power_int_def field_simps nat_diff_distrib)
    ultimately show ?thesis using False by (simp add: binary_exponent_def)
  qed
qed

lemma rhe_floor: "\<lfloor>x\<rfloor> \<le> round_half_even x" "round_half_even x \<le> \<lfloor>x\<rfloor> + 1"
  by (simp_all add: round_half_even_def Let_def)

lemma rhe_ge: "of_int n \<le> x \<Longrightarrow> n \<le> round_half_even x"
proof -
  assume "of_int n \<le> x"
  then have "n \<le> \<lfloor>x\<rfloor>" by (simp add: le_floor_iff)
  with rhe_floor(1)[of x] show ?thesis by linarith
qed

lemma rhe_le: "x \<le> of_int n \<Longrightarrow> round_half_even x \<le> n"
proof -
  assume a: "x \<le> of_int n"
  then have f: "\<lfloor>x\<rfloor> \<le> n" by (simp add: floor_le_iff)
  show ?thesis
  proof (cases "\<lfloor>x\<rfloor> = n")
    case True
    then have "x = of_int n" using a by (metis of_int_floor_le order_antisym)
    then show ?thesis by (simp add: round_half_even_def)
  next
    case False
    with f rhe_floor(2)[of x] show ?thesis by linarith
  qed
qed

lemma rhe_below_half: "x < of_int n - 1 / 2 \<Longrightarrow> round_half_even x \<le> n - 1"
proof -
  assume a: "x < of_int n - 1 / 2"
  then have "x < of_int n" by linarith
  then have f: "\<lfloor>x\<rfloor> \<le> n - 1" by (simp add: floor_less_iff)
  show ?thesis
  proof (cases "\<lfloor>x\<rfloor> = n - 1")
    case True
    then have "x - of_int \<lfloor>x\<rfloor> < 1 / 2" using a by simp
    then show ?thesis using True by (simp add: round_half_even_def Let_def)
  next
    case False
    with f rhe_floor(2)[of x] show ?thesis by linarith
  qed
qed

lemma rhe_above_half: "of_int n - 1 / 2 \<le> x \<Longrightarrow> even n \<Longrightarrow> n \<le> round_half_even x"
proof -
  assume a: "of_int n - 1 / 2 \<le> x" and e: "even n"
  then have "of_int (n - 1) \<le> x" by simp
  then have f: "n - 1 \<le> \<lfloor>x\<rfloor>" by (simp add: le_floor_iff)
  show ?thesis
  proof (cases "\<lfloor>x\<rfloor> = n - 1")
    case True
    then have r: "1 / 2 \<le> x - of_int \<lfloor>x\<rfloor>" using a by simp
    have o: "odd \<lfloor>x\<rfloor>" using True e by simp
    show ?thesis using True r o by (auto simp add: round_half_even_def Let_def)
  next
    case False
    with f rhe_floor(1)[of x] show ?thesis by linarith
  qed
qed

lemma float64_round_overflow:
  assumes "2 ^ 1024 - 2 ^ 970 \<le> q"
  shows "2 ^ 1024 \<le> float64_round q"
proof -
  have T: "(2::rat) ^ 1023 \<le> 2 ^ 1024 - 2 ^ 970" by simp
  have qpos: "0 < q"
  proof -
    have "(0::rat) < 2 ^ 1023" by simp
    with T assms show ?thesis by linarith
  qed
  define e where "e = binary_exponent q"
  from binary_exponent_bounds[OF qpos]
  have lo: "2 powi e \<le> q" and hi: "q < 2 powi (e + 1)" by (simp_all add: e_def)
  have e1023: "1023 \<le> e"
  proof (rule ccontr)
    assume "\<not> 1023 \<le> e"
    then have "e + 1 \<le> 1023" by simp
    then have "(2::rat) powi (e + 1) \<le> 2 powi 1023"
      by (intro power_int_increasing) auto
    then have "(2::rat) powi (e + 1) \<le> 2 ^ 1023" by simp
    with hi T assms show False by linarith
  qed
  define u :: rat where "u = 2 powi (e - 52)"
  have upos: "0 < u" by (simp add: u_def)
  have fr: "float64_round q = of_int (round_half_even (q / u)) * u"
    using qpos e1023 by (simp add: float64_round_def Let_def e_def[symmetric] u_def max_def)
  show ?thesis
  proof (cases "e = 1023")
    case True
    then have u: "u = 2 ^ 971" by (simp add: u_def)
    have eq: "(2 ^ 1024 - 2 ^ 970) / u = of_int (2 ^ 53) - 1 / 2"
      unfolding u by simp
    have "(2 ^ 1024 - 2 ^ 970) / u \<le> q / u"
      using assms upos by (rule divide_right_mono[OF _ less_imp_le])
    then have "of_int (2 ^ 53) - 1 / 2 \<le> q / u" by (simp only: eq)
    then have "2 ^ 53 \<le> round_half_even (q / u)"
      by (rule rhe_above_half) simp
    then have "(of_int (2 ^ 53) :: rat) \<le> of_int (round_half_even (q / u))"
      by (simp only: of_int_le_iff)
    then have "of_int (2 ^ 53) * u \<le> of_int (round_half_even (q / u)) * u"
      using upos by (simp add: mult_right_mono)
    moreover have "of_int (2 ^ 53) * u = (2::rat) ^ 1024" unfolding u by simp
    ultimately show ?thesis unfolding fr by simp
  next
    case False
    with e1023 have e1024: "1024 \<le> e" by simp
    have "2 powi e / u \<le> q / u"
      using lo upos by (simp add: divide_right_mono)
    moreover have "2 powi e / u = (2::rat) powi 52"
      unfolding u_def by (simp flip: power_int_diff)
    ultimately have "of_int (2 ^ 52) \<le> q / u" by simp
    then have "2 ^ 52 \<le> round_half_even (q / u)" by (rule rhe_ge)
    then have "(of_int (2 ^ 52) :: rat) \<le> of_int (round_half_even (q / u))"
      by (simp only: of_int_le_iff)
    then have "of_int (2 ^ 52) * u \<le> of_int (round_half_even (q / u)) * u"
      using upos by (simp add: mult_right_mono)
    moreover have "of_int (2 ^ 52) * u = (2::rat) powi e"
    proof -
      have "(2::rat) powi 52 * 2 powi (e - 52) = 2 powi (52 + (e - 52))"
        by (subst power_int_add) simp_all
      then show ?thesis by (simp add: u_def)
    qed
    moreover have "(2::rat) powi 1024 \<le> 2 powi e"
      using e1024 by (intro power_int_increasing) auto
    ultimately show ?thesis unfolding fr by simp
  qed
qed

lemma float64_round_in_range:
  assumes "0 \<le> q" and "q < 2 ^ 1024 - 2 ^ 970"
  shows "float64_round q < 2 ^ 1024"
proof (cases "q = 0")
  case True
  then show ?thesis by (simp add: float64_round_def)
next
  case False
  with assms have qpos: "0 < q" by simp
  have q1024: "q < 2 ^ 1024"
  proof -
    have "(2::rat) ^ 1024 - 2 ^ 970 < 2 ^ 1024" by simp
    with assms(2) show ?thesis by linarith
  qed
  define e where "e = binary_exponent q"
  from binary_exponent_bounds[OF qpos]
  have lo: "2 powi e \<le> q" and hi: "q < 2 powi (e + 1)" by (simp_all add: e_def)
  have e1023: "e \<le> 1023"
  proof (rule ccontr)
    assume "\<not> e \<le> 1023"
    then have "1024 \<le> e" by simp
    then have "(2::rat) powi 1024 \<le> 2 powi e"
      by (intro power_int_increasing) auto
    then have "(2::rat) ^ 1024 \<le> 2 powi e" by simp
    with lo q1024 show False by linarith
  qed
  define E where "E = max e (- 1022)"
  define u :: rat where "u = 2 powi (E - 52)"
  have upos: "0 < u" by (simp add: u_def)
  have fr: "float64_round q = of_int (round_half_even (q / u)) * u"
    using qpos by (simp add: float64_round_def Let_def e_def[symmetric] u_def E_def)
  have E1023: "E \<le> 1023" using e1023 by (simp add: E_def)
  show ?thesis
  proof (cases "E = 1023")
    case True
    then have u: "u = 2 ^ 971" by (simp add: u_def)
    have eq: "(2 ^ 1024 - 2 ^ 970) / u = of_int (2 ^ 53) - 1 / 2"
      unfolding u by simp
    have "q / u < (2 ^ 1024 - 2 ^ 970) / u"
      using assms(2) upos by (rule divide_strict_right_mono)
    then have "q / u < of_int (2 ^ 53) - 1 / 2" by (simp only: eq)
    then have "round_half_even (q / u) \<le> 2 ^ 53 - 1" by (rule rhe_below_half)
    then have "(of_int (round_half_even (q / u)) :: rat) \<le> of_int (2 ^ 53 - 1)"
      by (simp only: of_int_le_iff)
    then have "of_int (round_half_even (q / u)) * u \<le> of_int (2 ^ 53 - 1) * u"
      using upos by (simp add: mult_right_mono)
    moreover have "of_int (2 ^ 53 - 1) * u < (2::rat) ^ 1024" unfolding u by simp
    ultimately show ?thesis unfolding fr by linarith
  next
    case False
    with E1023 have E1022: "E \<le> 1022" by simp
    have "e + 1 \<le> E + 1" by (simp add: E_def)
    then have "(2::rat) powi (e + 1) \<le> 2 powi (E + 1)"
      by (intro power_int_increasing) auto
    with hi have "q < 2 powi (E + 1)" by linarith
    then have "q / u < 2 powi (E + 1) / u"
      using upos by (simp add: divide_strict_right_mono)
    moreover have "2 powi (E + 1) / u = (2::rat) powi 53"
      unfolding u_def by (simp flip: power_int_diff)
    ultimately have "q / u \<le> of_int (2 ^ 53)" by simp
    then have "round_half_even (q / u) \<le> 2 ^ 53" by (rule rhe_le)
    then have "(of_int (round_half_even (q / u)) :: rat) \<le> of_int (2 ^ 53)"
      by (simp only: of_int_le_iff)
    then have "of_int (round_half_even (q / u)) * u \<le> of_int (2 ^ 53) * u"
      using upos by (simp add: mult_right_mono)
    moreover have "of_int (2 ^ 53) * u = (2::rat) powi (E + 1)"
    proof -
      have "(2::rat) powi 53 * 2 powi (E - 52) = 2 powi (53 + (E - 52))"
        by (subst power_int_add) simp_all
      then show ?thesis by (simp add: u_def add.commute)
    qed
    moreover have "(2::rat) powi (E + 1) \<le> 2 powi 1023"
      using E1022 by (intro power_int_increasing) auto
    moreover have "(2::rat) powi 1023 < 2 ^ 1024" by simp
    ultimately show ?thesis unfolding fr by linarith
  qed
qed

lemma ParseFloat_int:
  assumes "list_all isDigit ip" and "ip \<noteq> []"
  shows "ParseFloat ip =
     (if 2 ^ 1024 \<le> float64_round (decimal_value ip []) then Inl ErrRange
      else Inr (float64_round (decimal_value ip [])))"
proof -
  have tw: "takeWhile isDigit ip = ip" "dropWhile isDigit ip = []"
    using assms(1) by (simp_all add: list_all_iff)
  show ?thesis
    unfolding ParseFloat_def Let_def tw using assms(2) by simp
qed

lemma ParseFloat_frac:
  assumes "list_all isDigit ip" and "list_all isDigit fp" and "ip \<noteq> []"
  shows "ParseFloat (ip @ rune_of CHR ''.'' # fp) =
     (if 2 ^ 1024 \<le> float64_round (decimal_value ip fp) then Inl ErrRange
      else Inr (float64_round (decimal_value ip fp)))"
proof -
  have tw: "takeWhile isDigit (ip @ rune_of CHR ''.'' # fp) = ip"
    "dropWhile isDigit (ip @ rune_of CHR ''.'' # fp) = rune_of CHR ''.'' # fp"
    using takeWhile_digits[OF assms(1), of "rune_of CHR ''.'' # fp"] by simp_all
  show ?thesis
    unfolding ParseFloat_def Let_def tw using assms(2,3) by simp
qed

lemma digits_fold_bounds:
  "list_all isDigit ds \<Longrightarrow> 0 \<le> a \<Longrightarrow>
   0 \<le> foldl (\<lambda>a c. 10 * a + digit_value c) a ds \<and>
   foldl (\<lambda>a c. 10 * a + digit_value c) a ds < (a + 1) * 10 ^ length ds"
proof (induction ds arbitrary: a)
  case Nil
  then show ?case by simp
next
  case (Cons d ds)
  from Cons.prems have d: "0 \<le> digit_value d" "digit_value d \<le> 9"
    by (simp_all add: isDigit_def digit_value_def rune_of_def)
  from Cons.prems d have "list_all isDigit ds" "0 \<le> 10 * a + digit_value d" by simp_all
  from Cons.IH[OF this]
  have IH: "0 \<le> foldl (\<lambda>a c. 10 * a + digit_value c) (10 * a + digit_value d) ds"
    "foldl (\<lambda>a c. 10 * a + digit_value c) (10 * a + digit_value d) ds
       < (10 * a + digit_value d + 1) * 10 ^ length ds"
    by simp_all
  have "(10 * a + digit_value d + 1) * 10 ^ length ds \<le> (10 * (a + 1)) * 10 ^ length ds"
    using d by (intro mult_right_mono) simp_all
  also have "\<dots> = (a + 1) * 10 ^ length (d # ds)" by simp
  finally have "(10 * a + digit_value d + 1) * 10 ^ length ds \<le> (a + 1) * 10 ^ length (d # ds)" .
  with IH(2) have "foldl (\<lambda>a c. 10 * a + digit_value c) (10 * a + digit_value d) ds
      < (a + 1) * 10 ^ length (d # ds)" by (rule less_le_trans)
  with IH(1) show ?case by simp
qed

lemma decimal_value_bounds:
  assumes "list_all isDigit ip" and "list_all isDigit fp"
  shows "0 \<le> decimal_value ip fp" and "decimal_value ip fp < 10 ^ length ip"
proof -
  let ?N = "foldl (\<lambda>a c. 10 * a + digit_value c) 0 (ip @ fp)"
  from assms have "list_all isDigit (ip @ fp)" by simp
  from digits_fold_bounds[OF this, of 0]
  have N: "0 \<le> ?N" "?N < 10 ^ (length ip + length fp)" by simp_all
  show "0 \<le> decimal_value ip fp"
    using N(1) by (simp add: decimal_value_def)
  from N(2) have "(of_int ?N :: rat) < of_int (10 ^ (length ip + length fp))"
    by (simp only: of_int_less_iff)
  then have "(of_int ?N :: rat) < 10 ^ length ip * 10 ^ length fp"
    by (simp add: power_add)
  then show "decimal_value ip fp < 10 ^ length ip"
    by (simp add: decimal_value_def field_simps)
qed

lemma zeros_fold:
  "foldl (\<lambda>a c. 10 * a + digit_value c) a (replicate n (rune_of CHR ''0'')) = a * 10 ^ n"
  by (induction n arbitrary: a) (simp_all add: digit_value_def)

text \<open>The length of the longest run of consecutive decimal digits in a source.\<close>

fun max_digit_run :: "rune list \<Rightarrow> nat" where
  "max_digit_run [] = 0"
| "max_digit_run (c # cs) =
     (if isDigit c then max (Suc (length (takeWhile isDigit cs))) (max_digit_run cs)
      else max_digit_run cs)"

lemma max_digit_run_drop: "max_digit_run (drop n xs) \<le> max_digit_run xs"
proof (induction xs arbitrary: n)
  case Nil
  then show ?case by simp
next
  case (Cons x xs)
  show ?case
  proof (cases n)
    case 0
    then show ?thesis by simp
  next
    case (Suc m)
    with Cons[of m] show ?thesis by (simp add: le_max_iff_disj)
  qed
qed

lemma max_digit_run_prefix:
  "isDigit d \<Longrightarrow> Suc (length (takeWhile isDigit r)) \<le> max_digit_run (d # r)"
  by simp

section \<open>When an invalid number literal is reported\<close>

lemma number_text_cases:
  assumes "isDigit d"
  obtains "d # take (number_len r) r = d # takeWhile isDigit r"
  | fp where "fp \<noteq> []" "list_all isDigit fp"
      "d # take (number_len r) r = (d # takeWhile isDigit r) @ rune_of CHR ''.'' # fp"
proof -
  let ?ip = "takeWhile isDigit r" and ?r1 = "dropWhile isDigit r"
  have r: "r = ?ip @ ?r1" by simp
  show thesis
  proof (cases "\<exists>y r2. ?r1 = rune_of CHR ''.'' # y # r2 \<and> isDigit y")
    case True
    then obtain y r2 where r1: "?r1 = rune_of CHR ''.'' # y # r2" and y: "isDigit y" by blast
    let ?fp = "takeWhile isDigit (y # r2)"
    have n: "number_len r = length ?ip + (1 + length ?fp)"
      using y by (simp add: number_len_def Let_def r1)
    have "take (number_len r) (?ip @ ?r1) = ?ip @ rune_of CHR ''.'' # ?fp"
      unfolding n r1 using y by (simp add: takeWhile_eq_take[symmetric])
    then have "d # take (number_len r) r = (d # ?ip) @ rune_of CHR ''.'' # ?fp" by simp
    moreover have "?fp \<noteq> []" using y by simp
    moreover have "list_all isDigit ?fp"
      by (auto simp: list_all_iff dest: set_takeWhileD)
    ultimately show ?thesis by (rule that(2)[rotated 2])
  next
    case False
    then have n: "number_len r = length ?ip"
      by (auto simp: number_len_def Let_def split: list.splits)
    have "take (number_len r) (?ip @ ?r1) = ?ip"
      unfolding n by (simp add: takeWhile_eq_take[symmetric])
    then show ?thesis using that(1) by simp
  qed
qed

lemma digits_takeWhile: "isDigit d \<Longrightarrow> list_all isDigit (d # takeWhile isDigit r)"
  by (auto simp: list_all_iff dest: set_takeWhileD)

lemma ParseFloat_number_text:
  assumes "isDigit d"
  shows "ParseFloat (d # take (number_len r) r) \<noteq> Inl ErrSyntax"
proof -
  let ?ip = "d # takeWhile isDigit r"
  have ip: "list_all isDigit ?ip" by (rule digits_takeWhile[OF assms])
  from assms show ?thesis
  proof (rule number_text_cases[of d r])
    assume t: "d # take (number_len r) r = ?ip"
    show ?thesis unfolding t ParseFloat_int[OF ip, simplified] by simp
  next
    fix fp assume fp: "fp \<noteq> []" "list_all isDigit fp"
      and t: "d # take (number_len r) r = ?ip @ rune_of CHR ''.'' # fp"
    show ?thesis unfolding t using ParseFloat_frac[OF ip fp(2)] by simp
  qed
qed

lemma ParseFloat_short:
  assumes d: "isDigit d" and len: "Suc (length (takeWhile isDigit r)) \<le> 308"
  shows "\<exists>v. ParseFloat (d # take (number_len r) r) = Inr v"
proof -
  let ?ip = "d # takeWhile isDigit r"
  have ip: "list_all isDigit ?ip" by (rule digits_takeWhile[OF d])
  have small: "float64_round (decimal_value ?ip fp) < 2 ^ 1024" if "list_all isDigit fp" for fp
  proof -
    from decimal_value_bounds[OF ip that]
    have v: "0 \<le> decimal_value ?ip fp" "decimal_value ?ip fp < 10 ^ length ?ip" by simp_all
    have "(10::rat) ^ length ?ip \<le> 10 ^ 308"
      using len by (intro power_increasing) simp_all
    moreover have "(10::rat) ^ 308 < 2 ^ 1024 - 2 ^ 970" by simp
    ultimately have "decimal_value ?ip fp < 2 ^ 1024 - 2 ^ 970" using v(2) by linarith
    with v(1) show ?thesis by (rule float64_round_in_range)
  qed
  from d show ?thesis
  proof (rule number_text_cases[of d r])
    assume t: "d # take (number_len r) r = ?ip"
    from small[of "[]"] show ?thesis
      unfolding t ParseFloat_int[OF ip, simplified] by simp
  next
    fix fp assume fp: "fp \<noteq> []" "list_all isDigit fp"
      and t: "d # take (number_len r) r = ?ip @ rune_of CHR ''.'' # fp"
    from small[OF fp(2)] show ?thesis
      unfolding t using ParseFloat_frac[OF ip fp(2)] by simp
  qed
qed

text \<open>The reports of \<^verbatim>\<open>ErrInvalidNumberLiteral\<close> that a sink has received.\<close>

definition inl_reports :: "lox \<Rightarrow> (int \<times> char list \<times> lex_error) list" where
  "inl_reports l = filter (\<lambda>(n, wh, e). e = ErrInvalidNumberLiteral) (reports l)"

lemma inl_reportError [simp]:
  "e \<noteq> ErrInvalidNumberLiteral \<Longrightarrow> inl_reports (reportError l n e) = inl_reports l"
  by (simp add: inl_reports_def reportError_def report_def)

lemma scanToken_other_no_inl:
  assumes st: "start s = current s" and cr: "rest s = c # r" and nd: "\<not> isDigit c"
    and res: "scanToken s = Some s'"
  shows "inl_reports (lox s') = inl_reports (lox s)"
proof -
  let ?s1 = "s\<lparr>current := Suc (current s)\<rparr>"
  have adv: "advance s = Some (c, ?s1)" by (rule advance_Cons[OF cr])
  have i1: "inb ?s1" by (rule inb_Suc[OF inb_fresh[OF st cr] cr])
  have lt: "start ?s1 < current ?s1" using st by simp
  define Q where "Q x \<longleftrightarrow> (\<forall>s'. x = Some s' \<longrightarrow> inl_reports (lox s') = inl_reports (lox s))"
    for x :: "scanner option"
  have ifQ: "(b \<Longrightarrow> Q x) \<Longrightarrow> (\<not> b \<Longrightarrow> Q y) \<Longrightarrow> Q (if b then x else y)" for b x y
    by simp
  have tokQ: "Q (addToken ?s1 ty)" for ty
    by (auto simp: Q_def addToken_def addTokenWithLiteral_def split: option.splits)
  have matchQ: "Q (case match ?s1 e of (True, s') \<Rightarrow> addToken s' ty1
                | (False, s') \<Rightarrow> addToken s' ty2)" for e ty1 ty2
    by (auto simp: Q_def match_def addToken_def addTokenWithLiteral_def
        split: option.splits if_splits)
  have slashQ: "Q (case match ?s1 (rune_of CHR ''/'') of
          (True, s1) \<Rightarrow> lineComment_loop s1
        | (False, s1) \<Rightarrow>
            (case match s1 (rune_of CHR ''*'') of
               (True, s2) \<Rightarrow> blockComment s2
             | (False, s2) \<Rightarrow> addToken s2 SLASH))"
    by (auto simp: Q_def match_def addToken_def addTokenWithLiteral_def
        lineComment_loop_eq blockComment_eq split: option.splits if_splits)
  have stringQ: "Q (string ?s1)"
    unfolding Q_def string_eq[OF i1 lt] by (simp add: Let_def)
  have identQ: "Q (identifier' ?s1)"
    unfolding Q_def identifier_eq[OF i1] by (simp add: Let_def)
  have numQ: "isDigit c \<Longrightarrow> Q (number ?s1)" using nd by simp
  have plainQ: "Q (Some ?s1)" "Q (Some (?s1\<lparr>line := line ?s1 + 1\<rparr>))"
    "Q (Some (?s1\<lparr>lox := reportError (lox ?s1) (line ?s1) ErrUnexpectedCharacter\<rparr>))"
    by (simp_all add: Q_def)
  have "Q (scanToken s)"
    unfolding scanToken_def adv Option.bind.bind_lunit prod.case
    by (intro ifQ tokQ matchQ slashQ stringQ identQ numQ plainQ)
  with res show ?thesis by (simp add: Q_def)
qed

lemma scanToken_digit_no_inl:
  assumes st: "start s = current s" and cr: "rest s = d # r" and d: "isDigit d"
    and len: "Suc (length (takeWhile isDigit r)) \<le> 308"
    and res: "scanToken s = Some s'"
  shows "inl_reports (lox s') = inl_reports (lox s)"
proof -
  from ParseFloat_short[OF d len] obtain v where
    "ParseFloat (d # take (number_len r) r) = Inr v" ..
  with res show ?thesis
    unfolding scanToken_number[OF st cr d] by (auto simp: Let_def)
qed

lemma loop_no_inl:
  assumes "max_digit_run (source s) \<le> 308" and "current s \<le> length (source s)"
    and "ScanTokens_loop s = Some s'"
  shows "inl_reports (lox s') = inl_reports (lox s)"
  using assms
proof (induction s rule: ScanTokens_loop.induct)
  case (1 s)
  show ?case
  proof (cases "isAtEnd s")
    case True
    with "1.prems"(3) show ?thesis by (simp add: ScanTokens_loop.simps[of s])
  next
    case False
    let ?s0 = "s\<lparr>start := current s\<rparr>"
    have i0: "inb ?s0" using False by (simp add: inb_def isAtEnd_def)
    have ne: "\<not> isAtEnd ?s0" using False by (simp add: isAtEnd_def)
    from scanToken_after[OF i0 ne] obtain s1 where
      st: "scanToken ?s0 = Some s1" and ss: "scan_step ?s0 s1" by blast
    from ss have src: "source s1 = source s" and le: "current s1 \<le> length (source s1)"
      by (simp_all add: scan_step_def after_def)
    have loop: "ScanTokens_loop s1 = Some s'"
      using "1.prems"(3) False st by (simp add: ScanTokens_loop.simps[of s])
    from "1.prems"(1) src have m: "max_digit_run (source s1) \<le> 308" by simp
    from "1.IH"[OF False st m le loop]
    have IH: "inl_reports (lox s') = inl_reports (lox s1)" .
    from ne obtain c r where cr: "rest ?s0 = c # r"
      by (cases "rest ?s0") (simp_all add: isAtEnd_rest)
    have "inl_reports (lox s1) = inl_reports (lox ?s0)"
    proof (cases "isDigit c")
      case True
      have "Suc (length (takeWhile isDigit r)) \<le> max_digit_run (c # r)"
        using True by simp
      also have "\<dots> = max_digit_run (drop (current s) (source s))"
        using cr by (simp add: rest_def)
      also have "\<dots> \<le> max_digit_run (source s)" by (rule max_digit_run_drop)
      finally have "Suc (length (takeWhile isDigit r)) \<le> 308"
        using "1.prems"(1) by simp
      from scanToken_digit_no_inl[OF _ cr True this st] show ?thesis by simp
    next
      case False
      from scanToken_other_no_inl[OF _ cr False st] show ?thesis by simp
    qed
    with IH show ?thesis by simp
  qed
qed

lemma float64_round_overflow_iff:
  "0 \<le> q \<Longrightarrow> 2 ^ 1024 \<le> float64_round q \<longleftrightarrow> 2 ^ 1024 - 2 ^ 970 \<le> q"
  using float64_round_overflow[of q] float64_round_in_range[of q] by fastforce

text \<open>
  Claim C7 says that \<^verbatim>\<open>ErrInvalidNumberLiteral\<close> is never reported. It is reported for a
  literal that is too large for a \<^verbatim>\<open>float64\<close>: the digit 1 followed by 309 zeros denotes
  \<open>10 ^ 309\<close>, for which \<^verbatim>\<open>strconv.ParseFloat\<close> returns a range error.
\<close>

theorem huge_literal_reported:
  "scan (rune_of CHR ''1'' # replicate 309 (rune_of CHR ''0'')) =
     Some ([\<lparr>TokenType = EOF, Lexeme = [], Literal = LitNil, Line = 1\<rparr>],
           \<lparr>hadError = True, reports = [(1, [], ErrInvalidNumberLiteral)]\<rparr>)"
proof -
  let ?z = "replicate 309 (rune_of CHR ''0'')"
  let ?src = "rune_of CHR ''1'' # ?z"
  let ?s = "NewScanner ?src \<lparr>hadError = False, reports = []\<rparr>"
  let ?s0 = "?s\<lparr>start := current ?s\<rparr>"
  have z: "list_all isDigit ?z" by (simp add: list_all_iff isDigit_def rune_of_def)
  have d: "isDigit (rune_of CHR ''1'')" by (simp add: isDigit_def rune_of_def)
  have n: "number_len ?z = 309"
    using number_len_int[OF z, of "[]"] by simp
  have v: "decimal_value ?src [] = 10 ^ 309"
    using zeros_fold[of 1 309] by (simp add: decimal_value_def digit_value_def rune_of_def)
  have "(2::rat) ^ 1024 - 2 ^ 970 \<le> 10 ^ 309" by simp
  then have "2 ^ 1024 \<le> float64_round (decimal_value ?src [])"
    unfolding v by (rule float64_round_overflow)
  then have pf: "ParseFloat ?src = Inl ErrRange"
    using ParseFloat_int[of ?src] z d by simp
  have r0: "rest ?s0 = rune_of CHR ''1'' # ?z" by (simp add: rest_def NewScanner_def)
  let ?s1 = "?s0\<lparr>current := current ?s0 + length ?src,
      lox := reportError (lox ?s0) (line ?s0) ErrInvalidNumberLiteral\<rparr>"
  have st: "scanToken ?s0 = Some ?s1"
    unfolding scanToken_number[OF _ r0 d, simplified] n
    using pf by (simp add: Let_def NewScanner_def)
  have e: "ScanTokens_loop ?s1 = Some ?s1"
    by (subst ScanTokens_loop.simps) (simp add: isAtEnd_def NewScanner_def)
  have "ScanTokens_loop ?s = Some ?s1"
    using st e by (subst ScanTokens_loop.simps) (simp add: isAtEnd_def NewScanner_def)
  then show ?thesis
    by (simp add: scan_def ScanTokens_def Let_def NewScanner_def reportError_def report_def)
qed

text \<open>
  Claim C7, amended. The text that \<^verbatim>\<open>number\<close> matches (digits, or digits, a dot and digits)
  is never a syntax error for \<^verbatim>\<open>ParseFloat\<close>, and it is a range error exactly when its
  decimal value is at least \<open>2 ^ 1024 - 2 ^ 970\<close>, the least value that rounds beyond the
  largest \<^verbatim>\<open>float64\<close>. So \<^verbatim>\<open>ErrInvalidNumberLiteral\<close> is never reported for a source in
  which no run of consecutive decimal digits is longer than 308.
\<close>

theorem invalid_number_only_out_of_range:
  "(max_digit_run src \<le> 308 \<longrightarrow>
      (\<exists>ts l. scan src = Some (ts, l) \<and> inl_reports l = [])) \<and>
   (list_all isDigit ip \<and> ip \<noteq> [] \<and> list_all isDigit fp \<longrightarrow>
      ParseFloat ip \<noteq> Inl ErrSyntax \<and>
      ParseFloat (ip @ rune_of CHR ''.'' # fp) \<noteq> Inl ErrSyntax \<and>
      (ParseFloat ip = Inl ErrRange \<longleftrightarrow> 2 ^ 1024 - 2 ^ 970 \<le> decimal_value ip []) \<and>
      (ParseFloat (ip @ rune_of CHR ''.'' # fp) = Inl ErrRange \<longleftrightarrow>
         2 ^ 1024 - 2 ^ 970 \<le> decimal_value ip fp))"
proof (intro conjI impI)
  assume m: "max_digit_run src \<le> 308"
  let ?s = "NewScanner src \<lparr>hadError = False, reports = []\<rparr>"
  have le: "current ?s \<le> length (source ?s)" by (simp add: NewScanner_def)
  from ScanTokens_loop_inv[OF le] obtain s' where l: "ScanTokens_loop ?s = Some s'" by blast
  from m have "max_digit_run (source ?s) \<le> 308" by (simp add: NewScanner_def)
  from loop_no_inl[OF this le l] have "inl_reports (lox s') = []"
    by (simp add: inl_reports_def NewScanner_def)
  with l show "\<exists>ts l. scan src = Some (ts, l) \<and> inl_reports l = []"
    by (simp add: scan_def ScanTokens_def Let_def)
next
  assume h: "list_all isDigit ip \<and> ip \<noteq> [] \<and> list_all isDigit fp"
  then have ip: "list_all isDigit ip" "ip \<noteq> []" and fp: "list_all isDigit fp" by simp_all
  have nil: "list_all isDigit ([]::rune list)" by simp
  note pi = ParseFloat_int[OF ip]
  note pf = ParseFloat_frac[OF ip(1) fp ip(2)]
  note oi = float64_round_overflow_iff[OF decimal_value_bounds(1)[OF ip(1) nil]]
  note of' = float64_round_overflow_iff[OF decimal_value_bounds(1)[OF ip(1) fp]]
  show "ParseFloat ip \<noteq> Inl ErrSyntax" unfolding pi by simp
  show "ParseFloat (ip @ rune_of CHR ''.'' # fp) \<noteq> Inl ErrSyntax" unfolding pf by simp
  show "ParseFloat ip = Inl ErrRange \<longleftrightarrow> 2 ^ 1024 - 2 ^ 970 \<le> decimal_value ip []"
    unfolding pi oi[symmetric] by simp
  show "ParseFloat (ip @ rune_of CHR ''.'' # fp) = Inl ErrRange \<longleftrightarrow>
         2 ^ 1024 - 2 ^ 970 \<le> decimal_value ip fp"
    unfolding pf of'[symmetric] by simp
qed

theorem invalid_number_only_out_of_range_witness:
  "(\<exists>ts l. scan (runes ''3.14 + 12345'') = Some (ts, l) \<and> inl_reports l = []) \<and>
   ParseFloat (runes ''3'') \<noteq> Inl ErrSyntax \<and>
   ParseFloat (runes ''3'' @ rune_of CHR ''.'' # runes ''14'') \<noteq> Inl ErrSyntax \<and>
   ParseFloat (runes ''3'') \<noteq> Inl ErrRange \<and>
   ParseFloat (runes ''3'' @ rune_of CHR ''.'' # runes ''14'') \<noteq> Inl ErrRange"
proof -
  have v: "decimal_value (runes ''3'') [] = 3" "decimal_value (runes ''3'') (runes ''14'') = 314 / 100"
    by (simp_all add: decimal_value_def digit_value_def runes_def rune_of_def)
  have small: "\<not> (2::rat) ^ 1024 - 2 ^ 970 \<le> 3" "\<not> (2::rat) ^ 1024 - 2 ^ 970 \<le> 314 / 100"
    by simp_all
  show ?thesis
    using invalid_number_only_out_of_range[of "runes ''3.14 + 12345''" "runes ''3''" "runes ''14''"]
      small
    unfolding v
    by (simp add: runes_def rune_of_def isDigit_def)
qed

end
